theory Spec2Isabelle
  imports Main "HOL-Library.Word" "HOL-Library.List_Lexorder"
begin

unbundle bit_operations_syntax

section \<open>Byte slices: the parts of Go's \<open>net\<close> and \<open>bytes\<close> packages the code calls\<close>

text \<open>
  A \<open>net.IP\<close> and a \<open>net.IPMask\<close> are byte slices. A nil slice and an empty slice both
  have length 0 and are modelled by \<open>[]\<close>; where the library distinguishes nil from a
  slice (\<open>To4\<close>, \<open>CIDRMask\<close>) the model returns an option.
\<close>

type_synonym byte = "8 word"

record IPNet =
  IP :: "byte list"
  Mask :: "byte list"

text \<open>\<open>bytes.Compare\<close>: lexicographic, a proper prefix is smaller; result -1, 0 or 1.\<close>

fun bytes_Compare :: "byte list \<Rightarrow> byte list \<Rightarrow> int" where
  "bytes_Compare [] [] = 0"
| "bytes_Compare [] (y # ys) = -1"
| "bytes_Compare (x # xs) [] = 1"
| "bytes_Compare (x # xs) (y # ys) =
     (if x < y then -1 else if y < x then 1 else bytes_Compare xs ys)"

definition isZeros :: "byte list \<Rightarrow> bool" where
  "isZeros p = list_all (\<lambda>b. b = 0) p"

text \<open>\<open>IP.To4\<close>: a 4-byte address is returned as it is, a 16-byte address inside
  \<open>::ffff:0:0/96\<close> is cut to its last four bytes, anything else gives nil.\<close>

definition To4 :: "byte list \<Rightarrow> byte list option" where
  "To4 ip =
     (if length ip = 4 then Some ip
      else if length ip = 16 \<and> isZeros (take 10 ip) \<and> ip ! 10 = 0xff \<and> ip ! 11 = 0xff
        then Some (drop 12 ip)
      else None)"

text \<open>\<open>IP.Equal\<close>: equal slices, or a 4-byte address and its 16-byte mapped form.\<close>

definition ip_Equal :: "byte list \<Rightarrow> byte list \<Rightarrow> bool" where
  "ip_Equal ip x =
     (if length ip = length x then ip = x
      else if length ip = 4 \<and> length x = 16
        then isZeros (take 10 x) \<and> x ! 10 = 0xff \<and> x ! 11 = 0xff \<and> ip = drop 12 x
      else if length ip = 16 \<and> length x = 4
        then isZeros (take 10 ip) \<and> ip ! 10 = 0xff \<and> ip ! 11 = 0xff \<and> drop 12 ip = x
      else False)"

text \<open>The inner loop of \<open>simpleMaskLength\<close>: count the leading one bits of a byte by
  shifting it left; a byte is exhausted after eight shifts.\<close>

fun count_ones :: "nat \<Rightarrow> byte \<Rightarrow> nat \<times> byte" where
  "count_ones 0 v = (0, v)"
| "count_ones (Suc k) v =
     (if v AND 0x80 \<noteq> 0
      then (case count_ones k (push_bit 1 v) of (n, v') \<Rightarrow> (Suc n, v'))
      else (0, v))"

text \<open>\<open>simpleMaskLength\<close>; \<open>None\<close> is the result -1 (not of the form 1...10...0).\<close>

fun simpleMaskLength :: "byte list \<Rightarrow> nat option" where
  "simpleMaskLength [] = Some 0"
| "simpleMaskLength (v # rest) =
     (if v = 0xff then map_option (\<lambda>n. n + 8) (simpleMaskLength rest)
      else (case count_ones 8 v of (n, v') \<Rightarrow>
              if v' \<noteq> 0 then None
              else if list_all (\<lambda>b. b = 0) rest then Some n else None))"

text \<open>\<open>IPMask.Size\<close>: (ones, bits), or (0, 0) for a mask that is not canonical.\<close>

definition Mask_Size :: "byte list \<Rightarrow> int \<times> int" where
  "Mask_Size m =
     (case simpleMaskLength m of
        None \<Rightarrow> (0, 0)
      | Some ones \<Rightarrow> (int ones, int (length m) * 8))"

text \<open>The loop of \<open>net.CIDRMask\<close> over the \<open>l\<close> bytes still to fill, \<open>n\<close> one bits left.\<close>

fun cidr_fill :: "nat \<Rightarrow> nat \<Rightarrow> byte list" where
  "cidr_fill 0 n = []"
| "cidr_fill (Suc l) n =
     (if 8 \<le> n then 0xff # cidr_fill l (n - 8)
      else NOT (drop_bit n (0xff :: byte)) # cidr_fill l 0)"

text \<open>\<open>net.CIDRMask\<close>: nil unless bits is 32 or 128 and \<open>0 \<le> ones \<le> bits\<close>.\<close>

definition CIDRMask :: "int \<Rightarrow> int \<Rightarrow> byte list option" where
  "CIDRMask ones bits =
     (if bits \<noteq> 32 \<and> bits \<noteq> 128 then None
      else if ones < 0 \<or> bits < ones then None
      else Some (cidr_fill (nat (bits div 8)) (nat ones)))"

text \<open>\<open>networkNumberAndMask\<close>; the pair (nil, nil) is \<open>([], [])\<close>.\<close>

definition networkNumberAndMask :: "IPNet \<Rightarrow> byte list \<times> byte list" where
  "networkNumberAndMask n =
     (case (case To4 (IP n) of
              Some x \<Rightarrow> Some x
            | None \<Rightarrow> if length (IP n) \<noteq> 16 then None else Some (IP n)) of
        None \<Rightarrow> ([], [])
      | Some ip \<Rightarrow>
          if length (Mask n) = 4 then (if length ip \<noteq> 4 then ([], []) else (ip, Mask n))
          else if length (Mask n) = 16
            then (if length ip = 4 then (ip, drop 12 (Mask n)) else (ip, Mask n))
          else ([], []))"

text \<open>\<open>(*net.IPNet).Contains\<close>.\<close>

definition IPNet_Contains :: "IPNet \<Rightarrow> byte list \<Rightarrow> bool" where
  "IPNet_Contains n ip0 =
     (case networkNumberAndMask n of (nn, m) \<Rightarrow>
        let ip = (case To4 ip0 of Some x \<Rightarrow> x | None \<Rightarrow> ip0);
            l = length ip
        in if l \<noteq> length nn then False
           else list_all (\<lambda>i. nn ! i AND m ! i = ip ! i AND m ! i) [0..<l])"

section \<open>net_utils.go\<close>

text \<open>A function that panics in Go (index out of range, \<open>panic("Bad value for size")\<close>)
  returns \<open>None\<close>.\<close>

definition Size :: "IPNet \<Rightarrow> nat" where
  "Size n = (case Mask_Size (Mask n) of (ones, bits) \<Rightarrow> 2 ^ nat (bits - ones))"

definition NewIP :: "nat \<Rightarrow> byte list option" where
  "NewIP sz = (if sz = 4 then Some (replicate 4 0)
               else if sz = 16 then Some (replicate 16 0)
               else None)"

definition NetworkAddr :: "IPNet \<Rightarrow> byte list" where
  "NetworkAddr n = IP n"

definition BroadcastAddr :: "IPNet \<Rightarrow> byte list option" where
  "BroadcastAddr n =
     (case NewIP (length (IP n)) of
        None \<Rightarrow> None
      | Some broadcast \<Rightarrow>
          if length (Mask n) < length (IP n) then None
          else Some (map (\<lambda>i. IP n ! i OR NOT (Mask n ! i)) [0..<length (IP n)]))"

definition ContainsNet :: "IPNet \<Rightarrow> IPNet \<Rightarrow> bool" where
  "ContainsNet n inner =
     (if length (IP n) \<noteq> length (IP inner) then False
      else if \<not> IPNet_Contains n (IP inner) then False
      else if \<not> ip_Equal (IP n) (IP inner) then True
      else bytes_Compare (Mask n) (Mask inner) \<le> 0)"

text \<open>\<open>DivideInHalf\<close>. When \<open>CIDRMask\<close> gives nil the loop body indexes a nil slice and
  panics, unless \<open>bits\<close> is 0 and the loop does not run.\<close>

definition DivideInHalf :: "IPNet \<Rightarrow> (IPNet \<times> IPNet) option" where
  "DivideInHalf n =
     (case Mask_Size (Mask n) of (ones, bits) \<Rightarrow>
        let l = nat (bits div 8) in
        (case CIDRMask (ones + 1) bits of
           None \<Rightarrow>
             if l = 0
             then Some (\<lparr>IP = IP n, Mask = []\<rparr>, \<lparr>IP = replicate 16 0, Mask = []\<rparr>)
             else None
         | Some newmask \<Rightarrow>
             if length (IP n) < l then None
             else
               let ip = map (\<lambda>i. newmask ! i AND (IP n ! i OR (newmask ! i XOR Mask n ! i))) [0..<l]
               in Some (\<lparr>IP = IP n, Mask = newmask\<rparr>, \<lparr>IP = ip, Mask = newmask\<rparr>)))"

text \<open>\<open>Difference\<close> recurses on a half of \<open>n\<close>. On a malformed network (empty address and
  mask) the Go code recurses forever, so the model is a partial function: \<open>None\<close> means
  that no list is returned (a panic inside \<open>DivideInHalf\<close>, or no termination).\<close>

partial_function (option) Difference :: "IPNet \<Rightarrow> IPNet \<Rightarrow> IPNet list option" where
  "Difference n m =
     (if length (IP n) \<noteq> length (IP m) then Some [n]
      else if ContainsNet m n then Some []
      else if \<not> ContainsNet n m then Some [n]
      else (case DivideInHalf n of
              None \<Rightarrow> None
            | Some (first, second) \<Rightarrow>
                if bytes_Compare (IP m) (IP second) < 0
                then Option.bind (Difference first m) (\<lambda>r. Some (second # r))
                else Option.bind (Difference second m) (\<lambda>r. Some (first # r))))"

declare Difference.simps [code]

text \<open>\<open>CanCombineWith\<close>: the pair (ok, newNet); \<open>newNet\<close> is nil on the two early
  returns. \<open>net.CIDRMask\<close> giving nil leaves the new network with an empty mask.\<close>

definition CanCombineWith :: "IPNet \<Rightarrow> IPNet \<Rightarrow> bool \<times> IPNet option" where
  "CanCombineWith n m =
     (if ip_Equal (IP n) (IP m) then (False, None)
      else if bytes_Compare (Mask n) (Mask m) \<noteq> 0 then (False, None)
      else (case Mask_Size (Mask n) of (ones, bits) \<Rightarrow>
              let newNet = \<lparr>IP = IP n,
                            Mask = (case CIDRMask (ones - 1) bits of None \<Rightarrow> [] | Some k \<Rightarrow> k)\<rparr>
              in if ContainsNet newNet m then (True, Some newNet) else (False, Some newNet)))"

definition ipToNet :: "byte list \<Rightarrow> IPNet" where
  "ipToNet ip =
     (let sz = 8 * int (length ip)
      in \<lparr>IP = ip, Mask = (case CIDRMask sz sz of None \<Rightarrow> [] | Some k \<Rightarrow> k)\<rparr>)"

text \<open>The loop of \<open>incrementIP\<close> runs from the last byte to the first; \<open>inc_bytes\<close> takes
  the bytes in that order (least significant first) and returns them in the same order.\<close>

fun inc_bytes :: "bool \<Rightarrow> byte list \<Rightarrow> byte list" where
  "inc_bytes carry [] = []"
| "inc_bytes carry (b # bs) =
     (if carry then (b + 1) # inc_bytes (b + 1 = 0) bs
      else b # inc_bytes False bs)"

text \<open>The result slice has 4 bytes when \<open>len(ip) == 4\<close> and 16 otherwise; writing
  \<open>result[i]\<close> for a longer \<open>ip\<close> panics, a shorter \<open>ip\<close> fills only the leading bytes.\<close>

definition incrementIP :: "byte list \<Rightarrow> byte list option" where
  "incrementIP ip =
     (let rl = (if length ip = 4 then 4 else 16 :: nat) in
      if rl < length ip then None
      else Some (rev (inc_bytes True (rev ip)) @ replicate (rl - length ip) 0))"


subsection \<open>Parsing\<close>

text \<open>\<open>ParseNet\<close> calls \<open>net.ParseCIDR\<close>. Its textual stage (the split at the slash,
  \<open>netip.ParseAddr\<close> on the address and \<open>dtoi\<close> on the prefix length) is the parameter
  \<open>scan\<close>: \<open>None\<close> for text that does not parse, otherwise the bytes of the address (4 for
  dotted IPv4 text, 16 for IPv6 text) and the number after the slash. What \<open>ParseCIDR\<close>
  does with them is modelled: the range check of the prefix length, \<open>CIDRMask\<close>, \<open>As16\<close>
  and \<open>IP.Mask\<close>. The two errors are the \<open>*net.ParseError\<close> of \<open>ParseCIDR\<close> and the
  \<open>fmt.Errorf("host part is not zero")\<close> of \<open>ParseNet\<close>.\<close>

datatype error = ParseError | HostPartNotZero

definition v4InV6Prefix :: "byte list" where
  "v4InV6Prefix = [0, 0, 0, 0, 0, 0, 0, 0, 0, 0, 0xff, 0xff]"

text \<open>\<open>IP.Mask\<close>; nil is \<open>[]\<close>.\<close>

definition ip_Mask :: "byte list \<Rightarrow> byte list \<Rightarrow> byte list" where
  "ip_Mask ip0 mask0 =
     (let mask = (if length mask0 = 16 \<and> length ip0 = 4 \<and> list_all (\<lambda>b. b = 0xff) (take 12 mask0)
                  then drop 12 mask0 else mask0);
          ip = (if length mask = 4 \<and> length ip0 = 16 \<and> take 12 ip0 = v4InV6Prefix
                then drop 12 ip0 else ip0)
      in if length ip \<noteq> length mask then []
         else map (\<lambda>i. ip ! i AND mask ! i) [0..<length ip])"

definition As16 :: "byte list \<Rightarrow> byte list" where
  "As16 a = (if length a = 4 then v4InV6Prefix @ a else a)"

definition ParseCIDR ::
  "(string \<Rightarrow> (byte list \<times> int) option) \<Rightarrow> string \<Rightarrow> error + (byte list \<times> IPNet)" where
  "ParseCIDR scan s =
     (case scan s of
        None \<Rightarrow> Inl ParseError
      | Some (a, n) \<Rightarrow>
          let bitlen = 8 * int (length a) in
          if n < 0 \<or> bitlen < n then Inl ParseError
          else
            let m = (case CIDRMask n bitlen of None \<Rightarrow> [] | Some k \<Rightarrow> k);
                addr16 = As16 a
            in Inr (addr16, \<lparr>IP = ip_Mask addr16 m, Mask = m\<rparr>))"

definition ParseNet ::
  "(string \<Rightarrow> (byte list \<times> int) option) \<Rightarrow> string \<Rightarrow> error + IPNet" where
  "ParseNet scan cidr =
     (case ParseCIDR scan cidr of
        Inl err \<Rightarrow> Inl err
      | Inr (ip, parsed) \<Rightarrow>
          if \<not> ip_Equal ip (IP parsed) then Inl HostPartNotZero else Inr parsed)"

definition ParseIPNet ::
  "(string \<Rightarrow> (byte list \<times> int) option) \<Rightarrow> string \<Rightarrow> error + IPNet" where
  "ParseIPNet scan cidr =
     (case ParseNet scan cidr of Inl err \<Rightarrow> Inl err | Inr parsedNet \<Rightarrow> Inr parsedNet)"

section \<open>The range tree\<close>

text \<open>
  The file that defines \<open>ipTree\<close> (\<open>insert\<close>, \<open>removeNet\<close>, \<open>contains\<close>, \<open>walk\<close>, \<open>first\<close>,
  \<open>next\<close>, \<open>prev\<close>, \<open>numNodes\<close>, \<open>size\<close>) is not among the sources; the definitions of this
  section follow section 4.2 of the specification. The parent link only serves
  navigation, so a node is its left subtree, its network and its right subtree, and the
  nil tree is \<open>Leaf\<close>.
\<close>

datatype ipTree = Leaf | Node ipTree IPNet ipTree

text \<open>Modelled from the spec: \<open>walk\<close> of the missing ipTree, the in-order traversal;
  \<open>first\<close>, \<open>next\<close> and \<open>prev\<close> step through this sequence.\<close>

fun walk :: "ipTree \<Rightarrow> IPNet list" where
  "walk Leaf = []"
| "walk (Node l n r) = walk l @ n # walk r"

text \<open>Modelled from the spec: \<open>numNodes\<close> and \<open>size\<close> of the missing ipTree (the number of
  stored networks, and the sum of their sizes).\<close>

fun numNodes :: "ipTree \<Rightarrow> nat" where
  "numNodes Leaf = 0"
| "numNodes (Node l n r) = numNodes l + 1 + numNodes r"


text \<open>Modelled from the spec: discarding a node of the missing ipTree. The two subtrees
  of the discarded node are joined so that the in-order sequence of the remaining nodes
  is unchanged.\<close>

fun join :: "ipTree \<Rightarrow> ipTree \<Rightarrow> ipTree" where
  "join Leaf r = r"
| "join (Node a x b) r = Node a x (join b r)"

text \<open>Modelled from the spec: the absorption step of \<open>insert\<close> of the missing ipTree,
  "continue searching for and removing any other existing nodes fully covered by the
  candidate".\<close>

fun prune :: "IPNet \<Rightarrow> ipTree \<Rightarrow> ipTree" where
  "prune c Leaf = Leaf"
| "prune c (Node l n r) =
     (if ContainsNet c n then join (prune c l) (prune c r)
      else Node (prune c l) n (prune c r))"

text \<open>Modelled from the spec: \<open>insert\<close> of the missing ipTree. The result is the new tree
  and, when the candidate became a node, its position in the in-order sequence (\<open>None\<close>
  when a stored network already contains the candidate: no structural change).\<close>

fun tree_insert :: "ipTree \<Rightarrow> IPNet \<Rightarrow> ipTree \<times> nat option" where
  "tree_insert Leaf c = (Node Leaf c Leaf, Some 0)"
| "tree_insert (Node l n r) c =
     (if ContainsNet n c then (Node l n r, None)
      else if ContainsNet c n
        then (Node (prune c l) c (prune c r), Some (numNodes (prune c l)))
      else if bytes_Compare (IP c) (IP n) < 0
        then (case tree_insert l c of (l', pos) \<Rightarrow> (Node l' n r, pos))
      else (case tree_insert r c of
              (r', pos) \<Rightarrow> (Node l n r', map_option (\<lambda>i. numNodes l + 1 + i) pos)))"

text \<open>Modelled from the spec: \<open>contains\<close> of the missing ipTree, "descend by address
  ordering; true iff some single node's network fully contains net".\<close>

fun tree_contains :: "ipTree \<Rightarrow> IPNet \<Rightarrow> bool" where
  "tree_contains Leaf c = False"
| "tree_contains (Node l n r) c =
     (if ContainsNet n c then True
      else if bytes_Compare (IP c) (IP n) < 0 then tree_contains l c
      else tree_contains r c)"

text \<open>Modelled from the spec: \<open>removeNet\<close> of the missing ipTree. A node whose network
  \<open>net\<close> contains is deleted; any other node is replaced by one node for each network of
  \<open>Difference\<close> (which is the node's own network when the two do not overlap). \<open>None\<close> when
  \<open>Difference\<close> returns no list.\<close>

fun removeNet :: "ipTree \<Rightarrow> IPNet \<Rightarrow> ipTree option" where
  "removeNet Leaf net = Some Leaf"
| "removeNet (Node l n r) net =
     (case removeNet l net of None \<Rightarrow> None | Some l' \<Rightarrow>
      (case removeNet r net of None \<Rightarrow> None | Some r' \<Rightarrow>
        if ContainsNet net n then Some (join l' r')
        else (case Difference n net of
                None \<Rightarrow> None
              | Some [] \<Rightarrow> Some (join l' r')
              | Some (d # ds) \<Rightarrow>
                  Some (fold (\<lambda>p t. fst (tree_insert t p)) ds (Node l' d r')))))"


section \<open>ipset.go\<close>

subsection \<open>Masks built by \<open>net.CIDRMask\<close> and read by \<open>IPMask.Size\<close>\<close>

lemma count_ones_partial_all:
  "list_all (\<lambda>j. count_ones 8 (NOT (drop_bit j (0xff :: byte))) = (j, 0)
                 \<and> NOT (drop_bit j (0xff :: byte)) \<noteq> 0xff) [0..<8]"
  by code_simp

lemma count_ones_partial:
  assumes "j < 8"
  shows "count_ones 8 (NOT (drop_bit j (0xff :: byte))) = (j, 0) \<and> NOT (drop_bit j (0xff :: byte)) \<noteq> 0xff"
  using count_ones_partial_all assms unfolding list_all_iff by simp

lemma length_cidr_fill [simp]: "length (cidr_fill l n) = l"
  by (induction l n rule: cidr_fill.induct) auto

lemma cidr_fill_0: "list_all (\<lambda>b. b = 0) (cidr_fill l 0)"
  by (induction l) auto

lemma simpleMaskLength_cidr_fill:
  "n \<le> 8 * l \<Longrightarrow> simpleMaskLength (cidr_fill l n) = Some n"
proof (induction l n rule: cidr_fill.induct)
  case (1 n) then show ?case by simp
next
  case (2 l n)
  show ?case
  proof (cases "8 \<le> n")
    case True
    with 2 show ?thesis by simp
  next
    case False
    then have "n < 8" by simp
    from count_ones_partial [OF this] show ?thesis
      using False cidr_fill_0 [of l] by simp
  qed
qed


lemma bytes_Compare_eq: "bytes_Compare xs ys = 0 \<Longrightarrow> xs = ys"
  by (induction xs ys rule: bytes_Compare.induct) (auto split: if_splits)

lemma To4_length: "To4 ip = Some x \<Longrightarrow> length x = 4"
  by (auto simp: To4_def split: if_splits)

lemma IPNet_Contains_nil_mask:
  assumes "IPNet_Contains n ip" and "Mask n = []"
  shows "ip = []"
proof -
  have nn: "networkNumberAndMask n = ([], [])"
    using assms(2) by (simp add: networkNumberAndMask_def split: option.splits)
  show ?thesis
  proof (cases "To4 ip")
    case None
    with assms(1) nn show ?thesis by (simp add: IPNet_Contains_def Let_def split: if_splits)
  next
    case (Some x)
    with assms(1) nn To4_length [OF Some] show ?thesis
      by (simp add: IPNet_Contains_def Let_def split: if_splits)
  qed
qed

lemma Mask_Size_CIDRMask:
  "CIDRMask ones bits = Some k \<Longrightarrow> Mask_Size k = (ones, bits)"
  by (auto simp: CIDRMask_def Mask_Size_def simpleMaskLength_cidr_fill split: if_splits)

text \<open>The use \<open>InsertIPNet\<close> makes of \<open>CanCombineWith\<close>: the merged network when \<open>ok\<close>.\<close>

definition combine :: "IPNet \<Rightarrow> IPNet \<Rightarrow> IPNet option" where
  "combine a b = (case CanCombineWith a b of (True, Some n) \<Rightarrow> Some n | _ \<Rightarrow> None)"

lemma CanCombineWith_ones:
  assumes "CanCombineWith a b = (True, Some n)"
  shows "Mask b = Mask a \<and> nat (fst (Mask_Size (Mask n))) < nat (fst (Mask_Size (Mask a)))"
proof -
  obtain ones bits where sz: "Mask_Size (Mask a) = (ones, bits)" by (cases "Mask_Size (Mask a)")
  define k where "k = (case CIDRMask (ones - 1) bits of None \<Rightarrow> [] | Some k \<Rightarrow> k)"
  from assms sz have ne: "\<not> ip_Equal (IP a) (IP b)" and cmp: "bytes_Compare (Mask a) (Mask b) = 0"
    and n: "n = \<lparr>IP = IP a, Mask = k\<rparr>" and cn: "ContainsNet n b"
    by (auto simp: CanCombineWith_def Let_def k_def split: if_splits)
  from cn have len: "length (IP a) = length (IP b)" and c: "IPNet_Contains n (IP b)"
    by (auto simp: ContainsNet_def n split: if_splits)
  have "CIDRMask (ones - 1) bits \<noteq> None"
  proof
    assume "CIDRMask (ones - 1) bits = None"
    then have "Mask n = []" by (simp add: n k_def)
    from IPNet_Contains_nil_mask [OF c this] len have "IP a = []" "IP b = []" by auto
    with ne show False by (simp add: ip_Equal_def)
  qed
  then obtain k' where k': "CIDRMask (ones - 1) bits = Some k'" by auto
  then have "0 \<le> ones - 1" by (auto simp: CIDRMask_def split: if_splits)
  moreover from k' have "Mask_Size (Mask n) = (ones - 1, bits)"
    by (simp add: n k_def Mask_Size_CIDRMask)
  ultimately show ?thesis using sz bytes_Compare_eq [OF cmp] by simp
qed

lemma combine_ones:
  "combine a b = Some n \<Longrightarrow>
     Mask b = Mask a \<and> nat (fst (Mask_Size (Mask n))) < nat (fst (Mask_Size (Mask a)))"
  by (rule CanCombineWith_ones) (auto simp: combine_def split: prod.splits bool.splits option.splits)

text \<open>The two neighbour checks of one round of the loop of \<open>InsertIPNet\<close>, for the new
  node at position \<open>i\<close> of the in-order sequence \<open>ns\<close>: \<open>prev.net.CanCombineWith(newNet)\<close>,
  then \<open>newNet.CanCombineWith(next.net)\<close> on the possibly merged network. \<open>None\<close> when
  neither combines (\<open>newNet == newNode.net\<close> compares pointers, so it holds exactly when
  no merge replaced \<open>newNet\<close>).\<close>

definition coalesce :: "IPNet list \<Rightarrow> nat \<Rightarrow> IPNet \<Rightarrow> IPNet option" where
  "coalesce ns i newNet =
     (let c1 = (if 0 < i then combine (ns ! (i - 1)) newNet else None);
          newNet1 = (case c1 of Some n \<Rightarrow> n | None \<Rightarrow> newNet);
          c2 = (if i + 1 < length ns then combine newNet1 (ns ! (i + 1)) else None)
      in (case c2 of Some n \<Rightarrow> Some n | None \<Rightarrow> c1))"

lemma coalesce_ones:
  assumes "coalesce ns i a = Some n"
  shows "nat (fst (Mask_Size (Mask n))) < nat (fst (Mask_Size (Mask a)))"
proof -
  define c1 where "c1 = (if 0 < i then combine (ns ! (i - 1)) a else None)"
  define a1 where "a1 = (case c1 of Some n \<Rightarrow> n | None \<Rightarrow> a)"
  define c2 where "c2 = (if i + 1 < length ns then combine a1 (ns ! (i + 1)) else None)"
  have res: "(case c2 of Some n \<Rightarrow> Some n | None \<Rightarrow> c1) = Some n"
    using assms unfolding coalesce_def Let_def c1_def a1_def c2_def .
  have m1: "c1 = Some x \<Longrightarrow> nat (fst (Mask_Size (Mask x))) < nat (fst (Mask_Size (Mask a)))" for x
    using combine_ones [of "ns ! (i - 1)" a x] by (auto simp: c1_def split: if_splits)
  have m2: "c2 = Some x \<Longrightarrow> nat (fst (Mask_Size (Mask x))) < nat (fst (Mask_Size (Mask a1)))" for x
    using combine_ones [of a1 "ns ! (i + 1)" x] by (auto simp: c2_def split: if_splits)
  have le: "nat (fst (Mask_Size (Mask a1))) \<le> nat (fst (Mask_Size (Mask a)))"
    using m1 by (cases c1) (auto simp: a1_def)
  show ?thesis
  proof (cases c2)
    case None
    with res have "c1 = Some n" by simp
    then show ?thesis by (rule m1)
  next
    case (Some x)
    with res have "x = n" by simp
    with m2 [OF Some] have "nat (fst (Mask_Size (Mask n))) < nat (fst (Mask_Size (Mask a1)))"
      by blast
    then show ?thesis using le by (rule less_le_trans)
  qed
qed

text \<open>The loop of \<open>InsertIPNet\<close>. The first exit is \<open>s.tree != newNode && newNode.up == nil\<close>:
  the new node did not enter the tree.\<close>

function insert_loop :: "ipTree \<Rightarrow> IPNet \<Rightarrow> ipTree" where
  "insert_loop t newNet =
     (case tree_insert t newNet of
        (t', None) \<Rightarrow> t'
      | (t', Some i) \<Rightarrow>
          (case coalesce (walk t') i newNet of
             None \<Rightarrow> t'
           | Some merged \<Rightarrow> insert_loop t' merged))"
  by pat_completeness auto
termination
  by (relation "measure (\<lambda>(t, n). nat (fst (Mask_Size (Mask n))))")
     (auto dest: coalesce_ones)


record IPSet =
  tree :: ipTree

text \<open>A pointer argument that may be nil is an option.\<close>

definition InsertIPNet :: "IPSet \<Rightarrow> IPNet option \<Rightarrow> IPSet" where
  "InsertIPNet s net =
     (case net of
        None \<Rightarrow> s
      | Some n \<Rightarrow> s\<lparr>tree := insert_loop (tree s) n\<rparr>)"

definition RemoveIPNet :: "IPSet \<Rightarrow> IPNet option \<Rightarrow> IPSet option" where
  "RemoveIPNet s net =
     (case net of
        None \<Rightarrow> Some s
      | Some n \<Rightarrow> map_option (\<lambda>t. s\<lparr>tree := t\<rparr>) (removeNet (tree s) n))"

definition ContainsIPNet :: "IPSet option \<Rightarrow> IPNet option \<Rightarrow> bool" where
  "ContainsIPNet s net =
     (case s of
        None \<Rightarrow> False
      | Some s' \<Rightarrow> (case net of None \<Rightarrow> False | Some n \<Rightarrow> tree_contains (tree s') n))"

definition Insert :: "IPSet \<Rightarrow> byte list \<Rightarrow> IPSet" where
  "Insert s ip = InsertIPNet s (Some (ipToNet ip))"


definition Contains :: "IPSet \<Rightarrow> byte list \<Rightarrow> bool" where
  "Contains s ip = ContainsIPNet (Some s) (Some (ipToNet ip))"

definition empty_IPSet :: IPSet where
  "empty_IPSet = \<lparr>tree = Leaf\<rparr>"

definition insert_all :: "IPNet list \<Rightarrow> IPSet \<Rightarrow> IPSet" where
  "insert_all ns s = fold (\<lambda>n acc. InsertIPNet acc (Some n)) ns s"


definition Union :: "IPSet \<Rightarrow> IPSet \<Rightarrow> IPSet" where
  "Union s other = insert_all (walk (tree other)) (insert_all (walk (tree s)) empty_IPSet)"



subsection \<open>Enumeration\<close>

text \<open>The loop of \<open>Expand\<close>: \<open>incrementIP\<close> is called after every stored address, also
  after the last one.\<close>

fun expand_loop :: "nat \<Rightarrow> byte list \<Rightarrow> byte list list option" where
  "expand_loop 0 next = Some []"
| "expand_loop (Suc k) next =
     (case incrementIP next of
        None \<Rightarrow> None
      | Some next' \<Rightarrow> map_option ((#) next) (expand_loop k next'))"

text \<open>\<open>Expand\<close>; \<open>make\<close> panics on a negative size.\<close>

definition Expand :: "IPNet \<Rightarrow> int \<Rightarrow> byte list list option" where
  "Expand n limit =
     (case Mask_Size (Mask n) of (ones, bits) \<Rightarrow>
        let max = (if bits - ones < 30 then 2 ^ nat (bits - ones) else 2 ^ 30 :: int);
            sz = (if max < limit then max else limit)
        in if sz < 0 then None else expand_loop (nat sz) (IP n))"

text \<open>\<open>int(^uint(0) >> 1)\<close> on a 64-bit platform.\<close>

definition MaxInt :: int where
  "MaxInt = 2 ^ 63 - 1"

fun getips_loop :: "int \<Rightarrow> IPNet list \<Rightarrow> byte list list \<Rightarrow> byte list list option" where
  "getips_loop limit [] ips = Some ips"
| "getips_loop limit (n # ns) ips =
     (case Expand n (limit - int (length ips)) of
        None \<Rightarrow> None
      | Some e \<Rightarrow> getips_loop limit ns (ips @ e))"

definition GetIPs :: "IPSet \<Rightarrow> int \<Rightarrow> byte list list option" where
  "GetIPs s limit =
     getips_loop (if limit = 0 then MaxInt else limit) (walk (tree s)) []"

text \<open>The addresses \<open>Expand\<close> returns for a budget of \<^term>\<open>2 ^ 30 :: int\<close>, the cap: the
  whole network, or its first \<^term>\<open>2 ^ 30 :: nat\<close> addresses.\<close>

definition Expand_capped :: "IPNet \<Rightarrow> byte list list" where
  "Expand_capped n = (case Expand n (2 ^ 30) of None \<Rightarrow> [] | Some e \<Rightarrow> e)"


section \<open>Canonical networks and the address range of a network\<close>

text \<open>A canonical network, as \<open>ParseIPNet\<close>, \<open>ipToNet\<close> and \<open>DivideInHalf\<close> build them: an
  address of 4 or 16 bytes, a mask of the same length made of \<open>k\<close> one bits followed by
  zero bits, and no address bit set outside the mask.\<close>

definition canonical :: "IPNet \<Rightarrow> bool" where
  "canonical n =
     ((length (IP n) = 4 \<or> length (IP n) = 16) \<and>
      (case simpleMaskLength (Mask n) of
         None \<Rightarrow> False
       | Some k \<Rightarrow> k \<le> 8 * length (IP n) \<and> Mask n = cidr_fill (length (IP n)) k) \<and>
      list_all (\<lambda>i. IP n ! i AND NOT (Mask n ! i) = 0) [0..<length (IP n)])"

text \<open>The order of addresses is the one of \<open>bytes.Compare\<close>.\<close>

definition addr_le :: "byte list \<Rightarrow> byte list \<Rightarrow> bool" where
  "addr_le a b = (bytes_Compare a b \<le> 0)"

text \<open>An address lies in a network when it has the width of the network and lies between
  the network address and the broadcast address.\<close>

definition in_net :: "byte list \<Rightarrow> IPNet \<Rightarrow> bool" where
  "in_net x n =
     (case BroadcastAddr n of
        None \<Rightarrow> False
      | Some b \<Rightarrow> length x = length (IP n) \<and> addr_le (NetworkAddr n) x \<and> addr_le x b)"

text \<open>The range of \<open>inner\<close> lies within the range of \<open>outer\<close>.\<close>

definition range_within :: "IPNet \<Rightarrow> IPNet \<Rightarrow> bool" where
  "range_within inner outer =
     (case (BroadcastAddr inner, BroadcastAddr outer) of
        (Some bi, Some bo) \<Rightarrow>
          length (IP inner) = length (IP outer) \<and>
          addr_le (NetworkAddr outer) (NetworkAddr inner) \<and> addr_le bi bo
      | _ \<Rightarrow> False)"

section \<open>The arithmetic of canonical networks\<close>

text \<open>The value of an address is the number its bytes spell, most significant byte
  first; on addresses of one width \<open>bytes.Compare\<close> compares the values.\<close>

subsection \<open>Addresses as numbers\<close>

fun val :: "byte list \<Rightarrow> nat" where
  "val [] = 0"
| "val (b # bs) = unat b * 256 ^ length bs + val bs"

lemma unat_byte_lt: "unat (b :: byte) < 256"
  using unsigned_less [of b, where ?'a = nat] by simp

lemma val_lt: "val bs < 256 ^ length bs"
proof (induction bs)
  case Nil show ?case by simp
next
  case (Cons b bs)
  have "unat b * 256 ^ length bs + val bs < unat b * 256 ^ length bs + 256 ^ length bs"
    using Cons by simp
  also have "\<dots> = (unat b + 1) * 256 ^ length bs" by simp
  also have "\<dots> \<le> 256 * 256 ^ length bs"
    using unat_byte_lt [of b] by (intro mult_right_mono) simp_all
  finally show ?case by simp
qed

lemma digit_eq:
  fixes a b r s p :: nat
  assumes "r < p" "s < p"
  shows "a * p + r = b * p + s \<longleftrightarrow> a = b \<and> r = s"
proof
  assume eq: "a * p + r = b * p + s"
  have "(a * p + r) div p = a" "(b * p + s) div p = b" using assms by simp_all
  with eq have "a = b" by metis
  with eq show "a = b \<and> r = s" by simp
qed simp

lemma digit_less:
  fixes a b r s p :: nat
  assumes "r < p" "s < p"
  shows "a * p + r < b * p + s \<longleftrightarrow> a < b \<or> (a = b \<and> r < s)"
proof -
  have "a < b \<Longrightarrow> a * p + r < b * p + s"
  proof -
    assume "a < b"
    then have "Suc a \<le> b" by simp
    then have "Suc a * p \<le> b * p" by (rule mult_le_mono1)
    with assms show ?thesis by simp
  qed
  moreover have "b < a \<Longrightarrow> \<not> a * p + r < b * p + s"
  proof -
    assume "b < a"
    then have "Suc b \<le> a" by simp
    then have "Suc b * p \<le> a * p" by (rule mult_le_mono1)
    with assms show ?thesis by simp
  qed
  ultimately show ?thesis by (cases a b rule: linorder_cases) auto
qed

lemma val_inj: "length xs = length ys \<Longrightarrow> val xs = val ys \<longleftrightarrow> xs = ys"
proof (induction xs ys rule: list_induct2)
  case Nil show ?case by simp
next
  case (Cons x xs y ys)
  have "val (x # xs) = val (y # ys) \<longleftrightarrow> unat x = unat y \<and> val xs = val ys"
    using digit_eq [of "val xs" "256 ^ length xs" "val ys" "unat x" "unat y"]
      val_lt [of xs] val_lt [of ys] Cons.hyps by simp
  with Cons.IH show ?case by (simp add: word_unat_eq_iff)
qed

lemma bytes_Compare_val:
  "length xs = length ys \<Longrightarrow>
   bytes_Compare xs ys = (if val xs < val ys then -1 else if val xs = val ys then 0 else 1)"
proof (induction xs ys rule: list_induct2)
  case Nil show ?case by simp
next
  case (Cons x xs y ys)
  have lt: "val (x # xs) < val (y # ys) \<longleftrightarrow> unat x < unat y \<or> (unat x = unat y \<and> val xs < val ys)"
    using digit_less [of "val xs" "256 ^ length xs" "val ys" "unat x" "unat y"]
      val_lt [of xs] val_lt [of ys] Cons.hyps by simp
  have eq: "val (x # xs) = val (y # ys) \<longleftrightarrow> unat x = unat y \<and> val xs = val ys"
    using digit_eq [of "val xs" "256 ^ length xs" "val ys" "unat x" "unat y"]
      val_lt [of xs] val_lt [of ys] Cons.hyps by simp
  show ?case
    unfolding bytes_Compare.simps lt eq Cons.IH
    by (auto simp: word_less_nat_alt)
qed

lemma addr_le_val: "length xs = length ys \<Longrightarrow> addr_le xs ys \<longleftrightarrow> val xs \<le> val ys"
  by (auto simp: addr_le_def bytes_Compare_val)

lemma bytes_Compare_less_val:
  "length xs = length ys \<Longrightarrow> bytes_Compare xs ys < 0 \<longleftrightarrow> val xs < val ys"
  by (auto simp: bytes_Compare_val)

subsection \<open>Bytes of a mask\<close>

definition bm :: "nat \<Rightarrow> byte" where
  "bm k = NOT (drop_bit k (0xff :: byte))"

lemma bm_mask: "bm k = NOT (mask (8 - k))"
proof -
  have "(0xff :: byte) = mask 8" by (simp add: mask_eq_exp_minus_1)
  moreover have "drop_bit k (mask 8 :: byte) = mask (8 - k)"
    by (rule bit_eqI) (auto simp: bit_simps dest: bit_imp_le_length)
  ultimately have "drop_bit k (0xff :: byte) = mask (8 - k)"
    by simp
  then show ?thesis by (simp only: bm_def)
qed

lemma low_bits_zero:
  fixes n :: nat
  assumes "n mod 2 ^ j = 0" and "bit n i"
  shows "j \<le> i"
proof (rule ccontr)
  assume "\<not> j \<le> i"
  then have "i < j" by simp
  from assms(1) have "take_bit j n = 0" by (simp add: take_bit_eq_mod)
  then have "\<not> bit (take_bit j n) i" by simp
  with \<open>i < j\<close> assms(2) show False by (simp add: bit_take_bit_iff)
qed

lemma BF1: "unat ((a::byte) AND NOT (mask j)) = (unat a div 2 ^ j) * 2 ^ j"
proof -
  have "unat (a AND NOT (mask j)) = push_bit j (drop_bit j (unat a))"
    by (rule bit_eqI) (auto simp: bit_simps dest: bit_imp_le_length)
  then show ?thesis by (simp add: push_bit_eq_mult drop_bit_eq_div)
qed

lemma BF3:
  assumes "unat (a::byte) mod 2 ^ j = 0" and "j \<le> 8"
  shows "unat (a OR mask j) = unat a + 2 ^ j - 1"
proof -
  have "unat (a OR mask j) = unat a OR mask j"
    using assms(2) by (intro bit_eqI) (auto simp: bit_simps)
  also have "\<dots> = unat a + mask j"
  proof (rule disjunctive_add_eq_or [symmetric])
    have "unat a AND mask j = take_bit j (unat a)" by (simp add: take_bit_eq_mask)
    with assms(1) show "unat a AND mask j = 0" by (simp add: take_bit_eq_mod)
  qed
  finally show ?thesis by (simp add: mask_eq_exp_minus_1)
qed

lemma BF4:
  assumes "unat (a::byte) mod 2 ^ Suc j = 0" and "j < 8"
  shows "unat (NOT (mask j) AND (a OR (NOT (mask j) XOR NOT (mask (Suc j))))) = unat a + 2 ^ j"
proof -
  have z: "Suc j \<le> i" if "bit a i" for i
  proof -
    from that have "bit (unat a) i" by (simp add: bit_unsigned_iff)
    from low_bits_zero [OF assms(1) this] show ?thesis .
  qed
  have "unat (NOT (mask j) AND (a OR (NOT (mask j) XOR NOT (mask (Suc j))))) = unat a OR push_bit j 1"
    using assms(2) by (intro bit_eqI) (auto simp: bit_simps dest: z bit_imp_le_length)
  also have "\<dots> = unat a + push_bit j 1"
  proof (rule disjunctive_add_eq_or [symmetric])
    show "unat a AND push_bit j 1 = 0"
      by (rule bit_eqI) (auto simp: bit_simps dest: z)
  qed
  finally show ?thesis by (simp add: push_bit_eq_mult)
qed

subsection \<open>The masked address\<close>

lemma cidr_fill_Suc: "cidr_fill (Suc l) k = bm k # cidr_fill l (k - 8)"
proof (cases "8 \<le> k")
  case True
  then have "bm k = 0xff" by (simp add: bm_mask)
  with True show ?thesis by simp
next
  case False
  then show ?thesis by (simp add: bm_def)
qed

lemma cidr_fill_zero: "cidr_fill l 0 = replicate l 0"
  by (induction l) simp_all

lemma val_replicate_zero [simp]: "val (replicate l 0) = 0"
  by (induction l) simp_all

lemma div_shift1:
  fixes q r :: nat
  assumes "r < 2 ^ n" and "h \<le> n"
  shows "(q * 2 ^ n + r) div 2 ^ h = q * 2 ^ (n - h) + r div 2 ^ h"
proof -
  have e: "(2::nat) ^ n = 2 ^ (n - h) * 2 ^ h"
    using assms(2) by (simp flip: power_add)
  have "(q * 2 ^ n + r) div 2 ^ h = ((q * 2 ^ (n - h)) * 2 ^ h + r) div 2 ^ h"
    by (subst e) (simp only: mult.assoc)
  also have "\<dots> = q * 2 ^ (n - h) + r div 2 ^ h"
    by (rule div_mult_self3) simp
  finally show ?thesis .
qed

lemma div_shift2:
  fixes q r :: nat
  assumes "r < 2 ^ n"
  shows "(q * 2 ^ n + r) div 2 ^ (n + j) = q div 2 ^ j"
proof -
  have "(q * 2 ^ n + r) div 2 ^ (n + j) = ((q * 2 ^ n + r) div 2 ^ n) div 2 ^ j"
    by (simp add: power_add div_mult2_eq)
  also have "(q * 2 ^ n + r) div 2 ^ n = q" using assms by simp
  finally show ?thesis .
qed

lemma pow256: "(256::nat) ^ l = 2 ^ (8 * l)"
proof -
  have "(256::nat) = 2 ^ 8" by simp
  then show ?thesis by (simp only: power_mult)
qed

lemma val_lt2: "length a = l \<Longrightarrow> val a < 2 ^ (8 * l)"
  using val_lt [of a] by (simp add: pow256)

lemma val_mask_and:
  "length a = l \<Longrightarrow> k \<le> 8 * l \<Longrightarrow>
   val (map2 (AND) a (cidr_fill l k)) = (val a div 2 ^ (8 * l - k)) * 2 ^ (8 * l - k)"
proof (induction l arbitrary: a k)
  case 0
  then show ?case by simp
next
  case (Suc l)
  then obtain a0 as where a: "a = a0 # as" and las: "length as = l"
    by (cases a) auto
  have vas: "val as < 2 ^ (8 * l)" using las by (rule val_lt2)
  have IH: "val (map2 (AND) as (cidr_fill l (k - 8))) =
      (val as div 2 ^ (8 * l - (k - 8))) * 2 ^ (8 * l - (k - 8))"
    using Suc.IH [OF las, of "k - 8"] Suc.prems(2) by simp
  have head: "unat (a0 AND bm k) = (unat a0 div 2 ^ (8 - k)) * 2 ^ (8 - k)"
    by (simp only: bm_mask BF1)
  have lhs: "val (map2 (AND) a (cidr_fill (Suc l) k)) =
      (unat a0 div 2 ^ (8 - k)) * 2 ^ (8 - k) * 2 ^ (8 * l)
      + (val as div 2 ^ (8 * l - (k - 8))) * 2 ^ (8 * l - (k - 8))"
    by (simp add: a cidr_fill_Suc las IH head pow256 del: cidr_fill.simps)
  show ?case
  proof (cases "8 \<le> k")
    case True
    define h where "h = 8 * Suc l - k"
    have h: "h \<le> 8 * l" "8 * l - (k - 8) = h" "8 - k = 0"
      using True Suc.prems(2) by (auto simp: h_def)
    have "val a div 2 ^ h = unat a0 * 2 ^ (8 * l - h) + val as div 2 ^ h"
      using div_shift1 [OF vas h(1), of "unat a0"] by (simp add: a las pow256)
    moreover have "(2::nat) ^ (8 * l) = 2 ^ (8 * l - h) * 2 ^ h"
      using h(1) by (simp flip: power_add)
    ultimately show ?thesis
      unfolding lhs h h_def [symmetric] by (simp add: algebra_simps)
  next
    case False
    define j where "j = 8 - k"
    have h: "8 * Suc l - k = 8 * l + j" "k - 8 = 0"
      using False by (auto simp: j_def)
    have "val a div 2 ^ (8 * l + j) = unat a0 div 2 ^ j"
      using div_shift2 [OF vas, of "unat a0" j] by (simp add: a las pow256)
    moreover have "val as div 2 ^ (8 * l) = 0" using vas by simp
    ultimately show ?thesis
      unfolding lhs h j_def [symmetric] by (simp add: power_add)
  qed
qed

subsection \<open>Host bits and the broadcast address\<close>

lemma and_not_zero_iff: "(a :: byte) AND NOT m = 0 \<longleftrightarrow> a AND m = a"
  by (auto simp: bit_eq_iff bit_simps)

lemma map2_and_eq_self:
  "length a = length m \<Longrightarrow> map2 (AND) a m = a \<longleftrightarrow> list_all2 (\<lambda>a m. (a :: byte) AND NOT m = 0) a m"
  by (induction a m rule: list_induct2) (auto simp: and_not_zero_iff)

lemma floor_eq_iff:
  fixes v :: nat
  shows "(v div p) * p = v \<longleftrightarrow> v mod p = 0"
  by (metis add.right_neutral add_left_cancel div_mult_mod_eq)

lemma hostzero_val:
  assumes "length a = l" and "k \<le> 8 * l"
  shows "list_all2 (\<lambda>a m. a AND NOT m = 0) a (cidr_fill l k) \<longleftrightarrow> val a mod 2 ^ (8 * l - k) = 0"
proof -
  have "list_all2 (\<lambda>a m. a AND NOT m = 0) a (cidr_fill l k) \<longleftrightarrow> map2 (AND) a (cidr_fill l k) = a"
    using assms(1) by (simp add: map2_and_eq_self)
  also have "\<dots> \<longleftrightarrow> val (map2 (AND) a (cidr_fill l k)) = val a"
    using assms(1) by (simp add: val_inj)
  also have "\<dots> \<longleftrightarrow> val a mod 2 ^ (8 * l - k) = 0"
    by (simp only: val_mask_and [OF assms] floor_eq_iff)
  finally show ?thesis .
qed

lemma masked_eq_val:
  assumes "length a = l" and "length b = l" and "k \<le> 8 * l"
  shows "map2 (AND) a (cidr_fill l k) = map2 (AND) b (cidr_fill l k)
         \<longleftrightarrow> val a div 2 ^ (8 * l - k) = val b div 2 ^ (8 * l - k)"
proof -
  have "map2 (AND) a (cidr_fill l k) = map2 (AND) b (cidr_fill l k)
        \<longleftrightarrow> val (map2 (AND) a (cidr_fill l k)) = val (map2 (AND) b (cidr_fill l k))"
    using assms(1,2) by (simp add: val_inj)
  also have "\<dots> \<longleftrightarrow> val a div 2 ^ (8 * l - k) = val b div 2 ^ (8 * l - k)"
    by (simp add: val_mask_and [OF assms(1,3)] val_mask_and [OF assms(2,3)])
  finally show ?thesis .
qed

lemma add_pred: "0 < c \<Longrightarrow> a + (b + c - Suc 0) = a + b + c - Suc (0::nat)"
  by arith

lemma val_broadcast:
  "length a = l \<Longrightarrow> k \<le> 8 * l \<Longrightarrow> list_all2 (\<lambda>a m. a AND NOT m = 0) a (cidr_fill l k) \<Longrightarrow>
   val (map2 (\<lambda>a m. a OR NOT m) a (cidr_fill l k)) = val a + 2 ^ (8 * l - k) - 1"
proof (induction l arbitrary: a k)
  case 0
  then show ?case by simp
next
  case (Suc l)
  then obtain a0 as where a: "a = a0 # as" and las: "length as = l"
    by (cases a) auto
  from Suc.prems(3) have hz0: "a0 AND NOT (bm k) = 0"
    and hzs: "list_all2 (\<lambda>a m. a AND NOT m = 0) as (cidr_fill l (k - 8))"
    by (simp_all add: a cidr_fill_Suc del: cidr_fill.simps)
  have IH: "val (map2 (\<lambda>a m. a OR NOT m) as (cidr_fill l (k - 8))) = val as + 2 ^ (8 * l - (k - 8)) - 1"
    using Suc.IH [OF las _ hzs] Suc.prems(2) by simp
  from hz0 have "take_bit (8 - k) a0 = 0" by (simp add: bm_mask take_bit_eq_mask)
  then have "take_bit (8 - k) (unat a0) = 0"
    by (metis unsigned_take_bit_eq unsigned_0)
  then have m0: "unat a0 mod 2 ^ (8 - k) = 0" by (simp add: take_bit_eq_mod)
  have head: "unat (a0 OR NOT (bm k)) = unat a0 + 2 ^ (8 - k) - 1"
    using BF3 [OF m0] by (simp add: bm_mask)
  have lhs: "val (map2 (\<lambda>a m. a OR NOT m) a (cidr_fill (Suc l) k)) =
      (unat a0 + 2 ^ (8 - k) - 1) * 2 ^ (8 * l) + (val as + 2 ^ (8 * l - (k - 8)) - 1)"
    by (simp add: a cidr_fill_Suc las IH head pow256 del: cidr_fill.simps)
  show ?case
  proof (cases "8 \<le> k")
    case True
    then have h: "8 * l - (k - 8) = 8 * Suc l - k" "8 - k = 0"
      using Suc.prems(2) by auto
    show ?thesis unfolding lhs h by (simp add: a las pow256 add_pred)
  next
    case False
    define j where "j = 8 - k"
    have h: "8 * Suc l - k = 8 * l + j" "k - 8 = 0"
      using False by (auto simp: j_def)
    have "(unat a0 + 2 ^ j - 1) * 2 ^ (8 * l) + (val as + 2 ^ (8 * l) - 1)
        = unat a0 * 2 ^ (8 * l) + val as + 2 ^ (8 * l + j) - 1"
    proof -
      have e: "(unat a0 + 2 ^ j - 1) * 2 ^ (8 * l) = unat a0 * 2 ^ (8 * l) + 2 ^ j * 2 ^ (8 * l) - 2 ^ (8 * l)"
        by (simp add: algebra_simps diff_mult_distrib)
      have le: "(2::nat) ^ (8 * l) \<le> 2 ^ j * 2 ^ (8 * l)" by simp
      have one: "(1::nat) \<le> 2 ^ (8 * l)" by simp
      have g: "P \<le> Y \<Longrightarrow> 1 \<le> P \<Longrightarrow> X + Y - P + (V + P - 1) = X + V + Y - (1::nat)" for P Y X V
        by arith
      have p: "(2::nat) ^ (8 * l + j) = 2 ^ j * 2 ^ (8 * l)" by (simp add: power_add)
      show ?thesis unfolding e p by (rule g [OF le one])
    qed
    then show ?thesis unfolding lhs h j_def [symmetric] by (simp add: a las pow256)
  qed
qed

subsection \<open>The address of the second half\<close>

definition half_byte :: "byte \<times> byte \<times> byte \<Rightarrow> byte" where
  "half_byte = (\<lambda>(a, m', m). m' AND (a OR (m' XOR m)))"

lemma val_half_zero_masks:
  "length as = l \<Longrightarrow> val (map half_byte (zip as (zip (replicate l 0) (replicate l 0)))) = 0"
  by (induction l arbitrary: as) (auto simp: half_byte_def length_Suc_conv)

lemma hostzero_byte_mod:
  assumes "(a0 :: byte) AND NOT (bm k) = 0"
  shows "unat a0 mod 2 ^ (8 - k) = 0"
proof -
  from assms have "take_bit (8 - k) a0 = 0" by (simp add: bm_mask take_bit_eq_mask)
  then have "take_bit (8 - k) (unat a0) = 0"
    by (metis unsigned_take_bit_eq unsigned_0)
  then show ?thesis by (simp add: take_bit_eq_mod)
qed

lemma val_second:
  "length a = l \<Longrightarrow> k < 8 * l \<Longrightarrow> list_all2 (\<lambda>a m. a AND NOT m = 0) a (cidr_fill l k) \<Longrightarrow>
   val (map half_byte (zip a (zip (cidr_fill l (Suc k)) (cidr_fill l k)))) = val a + 2 ^ (8 * l - k - 1)"
proof (induction l arbitrary: a k)
  case 0
  then show ?case by simp
next
  case (Suc l)
  then obtain a0 as where a: "a = a0 # as" and las: "length as = l"
    by (cases a) auto
  from Suc.prems(3) have hz0: "a0 AND NOT (bm k) = 0"
    and hzs: "list_all2 (\<lambda>a m. a AND NOT m = 0) as (cidr_fill l (k - 8))"
    by (simp_all add: a cidr_fill_Suc del: cidr_fill.simps)
  have lhs: "val (map half_byte (zip a (zip (cidr_fill (Suc l) (Suc k)) (cidr_fill (Suc l) k)))) =
      unat (bm (Suc k) AND (a0 OR (bm (Suc k) XOR bm k))) * 2 ^ (8 * l)
      + val (map half_byte (zip as (zip (cidr_fill l (Suc k - 8)) (cidr_fill l (k - 8)))))"
    by (simp add: a cidr_fill_Suc las pow256 half_byte_def del: cidr_fill.simps)
  show ?case
  proof (cases "8 \<le> k")
    case True
    then have k8: "Suc k - 8 = Suc (k - 8)" "k - 8 < 8 * l" "8 * l - (k - 8) - 1 = 8 * Suc l - k - 1"
      using Suc.prems(2) by auto
    have "bm k = - 1" "bm (Suc k) = - 1" using True by (simp_all add: bm_mask)
    then have head: "bm (Suc k) AND (a0 OR (bm (Suc k) XOR bm k)) = a0" by simp
    have IH: "val (map half_byte (zip as (zip (cidr_fill l (Suc (k - 8))) (cidr_fill l (k - 8)))))
        = val as + 2 ^ (8 * Suc l - k - 1)"
      using Suc.IH [OF las k8(2) hzs] k8(3) by simp
    show ?thesis unfolding lhs head k8(1) IH by (simp add: a las pow256)
  next
    case False
    define j where "j = 7 - k"
    have k8: "Suc k - 8 = 0" "k - 8 = 0" "8 - k = Suc j" "8 - Suc k = j" "j < 8"
      "8 * Suc l - k - 1 = 8 * l + j"
      using False by (auto simp: j_def)
    have m0: "unat a0 mod 2 ^ Suc j = 0"
      using hostzero_byte_mod [OF hz0] by (simp only: k8)
    have head: "unat (bm (Suc k) AND (a0 OR (bm (Suc k) XOR bm k))) = unat a0 + 2 ^ j"
      using BF4 [OF m0 k8(5)] by (simp only: bm_mask k8)
    have "val as mod 2 ^ (8 * l - 0) = 0"
      using hzs hostzero_val [OF las, of 0] by (simp add: k8)
    then have vas: "val as = 0" using val_lt2 [OF las] by simp
    have tail: "val (map half_byte (zip as (zip (cidr_fill l 0) (cidr_fill l 0)))) = 0"
      using val_half_zero_masks [OF las] by (simp add: cidr_fill_zero)
    show ?thesis unfolding lhs head k8 tail
      by (simp add: a las pow256 vas power_add algebra_simps)
  qed
qed

subsection \<open>Canonical networks as aligned blocks\<close>

lemma map_index2:
  "length a = l \<Longrightarrow> length m = l \<Longrightarrow> map (\<lambda>i. f (a ! i) (m ! i)) [0..<l] = map2 f a m"
  by (auto intro!: nth_equalityI)

lemma map_index3:
  "length a = l \<Longrightarrow> length m' = l \<Longrightarrow> length m = l \<Longrightarrow>
   map (\<lambda>i. f (a ! i) (m' ! i) (m ! i)) [0..<l] = map (\<lambda>(a, m', m). f a m' m) (zip a (zip m' m))"
  by (auto intro!: nth_equalityI)

lemma list_all_index2:
  "length a = l \<Longrightarrow> length m = l \<Longrightarrow> list_all (\<lambda>i. P (a ! i) (m ! i)) [0..<l] \<longleftrightarrow> list_all2 P a m"
  by (auto simp: list_all_iff list_all2_conv_all_nth)

definition plen :: "IPNet \<Rightarrow> nat" where
  "plen n = (case simpleMaskLength (Mask n) of None \<Rightarrow> 0 | Some k \<Rightarrow> k)"

definition hbits :: "IPNet \<Rightarrow> nat" where
  "hbits n = 8 * length (IP n) - plen n"

definition lo :: "IPNet \<Rightarrow> nat" where
  "lo n = val (IP n)"

lemma canonicalD:
  assumes "canonical n"
  shows "length (IP n) = 4 \<or> length (IP n) = 16"
    and "plen n \<le> 8 * length (IP n)"
    and "Mask n = cidr_fill (length (IP n)) (plen n)"
    and "length (Mask n) = length (IP n)"
    and "list_all2 (\<lambda>a m. a AND NOT m = 0) (IP n) (cidr_fill (length (IP n)) (plen n))"
    and "lo n mod 2 ^ hbits n = 0"
    and "Mask_Size (Mask n) = (int (plen n), 8 * int (length (IP n)))"
proof -
  from assms obtain k where k: "simpleMaskLength (Mask n) = Some k"
    and le: "k \<le> 8 * length (IP n)" and m: "Mask n = cidr_fill (length (IP n)) k"
    and hz: "list_all (\<lambda>i. IP n ! i AND NOT (Mask n ! i) = 0) [0..<length (IP n)]"
    and len: "length (IP n) = 4 \<or> length (IP n) = 16"
    by (auto simp: canonical_def split: option.splits)
  have pk: "plen n = k" by (simp add: plen_def k)
  show "length (IP n) = 4 \<or> length (IP n) = 16" by (rule len)
  show "plen n \<le> 8 * length (IP n)" by (simp add: pk le)
  show m': "Mask n = cidr_fill (length (IP n)) (plen n)" by (simp add: pk m)
  show lm: "length (Mask n) = length (IP n)" by (subst m) simp
  from hz lm show hz2: "list_all2 (\<lambda>a m. a AND NOT m = 0) (IP n) (cidr_fill (length (IP n)) (plen n))"
    by (simp add: list_all_index2 [where P = "\<lambda>a m. a AND NOT m = 0" and a = "IP n" and m = "Mask n"] flip: m')
  from hz2 show "lo n mod 2 ^ hbits n = 0"
    by (simp add: hostzero_val [OF refl] pk le lo_def hbits_def)
  show "Mask_Size (Mask n) = (int (plen n), 8 * int (length (IP n)))"
    by (simp add: Mask_Size_def k pk lm)
qed

lemma canonicalI:
  assumes "length ip = 4 \<or> length ip = 16" and "k \<le> 8 * length ip"
    and "val ip mod 2 ^ (8 * length ip - k) = 0"
  shows "canonical \<lparr>IP = ip, Mask = cidr_fill (length ip) k\<rparr>"
    and "plen \<lparr>IP = ip, Mask = cidr_fill (length ip) k\<rparr> = k"
proof -
  have s: "simpleMaskLength (cidr_fill (length ip) k) = Some k"
    using assms(2) by (rule simpleMaskLength_cidr_fill)
  have "list_all2 (\<lambda>a m. a AND NOT m = 0) ip (cidr_fill (length ip) k)"
    using assms(3) by (simp add: hostzero_val [OF refl assms(2)])
  then have "list_all (\<lambda>i. ip ! i AND NOT (cidr_fill (length ip) k ! i) = 0) [0..<length ip]"
    by (simp add: list_all_index2 [where P = "\<lambda>a m. a AND NOT m = 0" and a = ip and m = "cidr_fill (length ip) k"])
  with assms(1,2) s show "canonical \<lparr>IP = ip, Mask = cidr_fill (length ip) k\<rparr>"
    by (simp add: canonical_def)
  show "plen \<lparr>IP = ip, Mask = cidr_fill (length ip) k\<rparr> = k"
    by (simp add: plen_def s)
qed

lemma Size_canonical: "canonical n \<Longrightarrow> Size n = 2 ^ hbits n"
proof -
  assume c: "canonical n"
  have "nat (8 * int (length (IP n)) - int (plen n)) = 8 * length (IP n) - plen n"
    by simp
  then show ?thesis
    by (simp add: Size_def canonicalD(7) [OF c] hbits_def)
qed

lemma BroadcastAddr_canonical:
  assumes "canonical n"
  obtains b where "BroadcastAddr n = Some b" "length b = length (IP n)"
    "val b = lo n + 2 ^ hbits n - 1"
proof -
  note c = canonicalD [OF assms]
  define b where "b = map2 (\<lambda>a m. a OR NOT m) (IP n) (Mask n)"
  have "map (\<lambda>i. IP n ! i OR NOT (Mask n ! i)) [0..<length (IP n)] = b"
    unfolding b_def by (rule map_index2) (simp_all add: c(4))
  then have 1: "BroadcastAddr n = Some b"
    using c(1,4) by (auto simp: BroadcastAddr_def NewIP_def)
  have 2: "length b = length (IP n)" by (simp add: b_def c(4))
  have "val b = val (IP n) + 2 ^ (8 * length (IP n) - plen n) - 1"
    unfolding b_def by (subst c(3), rule val_broadcast [OF refl c(2) c(5)])
  then have 3: "val b = lo n + 2 ^ hbits n - 1" by (simp add: lo_def hbits_def)
  from 1 2 3 show ?thesis by (rule that)
qed

lemma block_range_gen:
  fixes v l p :: nat
  assumes "0 < p" and "l mod p = 0"
  shows "l \<le> v \<and> v \<le> l + p - 1 \<longleftrightarrow> v div p = l div p"
proof -
  define q where "q = l div p"
  have l: "l = q * p" using assms(2) by (auto simp: q_def)
  have "q * p \<le> v \<and> v \<le> q * p + p - 1 \<longleftrightarrow> v div p = q"
  proof
    assume a: "q * p \<le> v \<and> v \<le> q * p + p - 1"
    with assms(1) have "v < q * p + p" by arith
    then have "v < p * Suc q" by (simp add: algebra_simps)
    moreover from a have "p * q \<le> v" by (simp add: mult.commute)
    ultimately show "v div p = q" by (rule div_nat_eqI [rotated])
  next
    assume e: "v div p = q"
    have "v div p * p \<le> v" by (rule div_times_less_eq_dividend)
    moreover have "v < p + v div p * p" using assms(1) by (rule dividend_less_div_times)
    ultimately show "q * p \<le> v \<and> v \<le> q * p + p - 1"
      unfolding e by arith
  qed
  then show ?thesis using assms(1) by (simp add: l)
qed

lemma block_range:
  fixes v l :: nat
  assumes "l mod 2 ^ h = 0"
  shows "l \<le> v \<and> v \<le> l + 2 ^ h - 1 \<longleftrightarrow> v div 2 ^ h = l div 2 ^ h"
  using block_range_gen [OF _ assms, of v] by simp

lemma in_net_canonical:
  assumes "canonical n"
  shows "in_net x n \<longleftrightarrow> length x = length (IP n) \<and> val x div 2 ^ hbits n = lo n div 2 ^ hbits n"
proof -
  from assms obtain b where b: "BroadcastAddr n = Some b" "length b = length (IP n)"
    "val b = lo n + 2 ^ hbits n - 1" by (rule BroadcastAddr_canonical)
  have "in_net x n \<longleftrightarrow> length x = length (IP n) \<and> lo n \<le> val x \<and> val x \<le> lo n + 2 ^ hbits n - 1"
    by (auto simp: in_net_def b NetworkAddr_def addr_le_val lo_def)
  then show ?thesis
    using block_range [OF canonicalD(6) [OF assms], of "val x"] by simp
qed

subsection \<open>Halving a canonical network\<close>

lemma mod_pow_le:
  fixes v :: nat
  assumes "v mod 2 ^ h = 0" and "h' \<le> h"
  shows "v mod 2 ^ h' = 0"
proof -
  from assms(1) have "2 ^ h dvd v" by (simp add: dvd_eq_mod_eq_0)
  moreover from assms(2) have "(2::nat) ^ h' dvd 2 ^ h" by (rule le_imp_power_dvd)
  ultimately have "2 ^ h' dvd v" by (rule dvd_trans [rotated])
  then show ?thesis by (simp add: dvd_eq_mod_eq_0)
qed

lemma DivideInHalf_canonical:
  assumes c: "canonical n" and lt: "plen n < 8 * length (IP n)"
  obtains first second where
    "DivideInHalf n = Some (first, second)"
    "canonical first" "canonical second"
    "IP first = IP n" "length (IP second) = length (IP n)"
    "plen first = Suc (plen n)" "plen second = Suc (plen n)"
    "lo second = lo n + 2 ^ (hbits n - 1)"
proof -
  note d = canonicalD [OF c]
  define L where "L = length (IP n)"
  define k where "k = plen n"
  define newmask where "newmask = cidr_fill L (Suc k)"
  define ip where "ip = map half_byte (zip (IP n) (zip newmask (Mask n)))"
  have L: "L = 4 \<or> L = 16" using d(1) by (simp add: L_def)
  have lm: "length (Mask n) = L" "length newmask = L" "length ip = L"
    by (simp_all add: d(4) L_def newmask_def ip_def)
  have cm: "CIDRMask (int k + 1) (8 * int L) = Some newmask"
  proof -
    have "nat (8 * int L div 8) = L" by simp
    moreover have "nat (int k + 1) = Suc k" by simp
    moreover have "int k + 1 \<le> 8 * int L" using lt by (simp add: k_def L_def)
    ultimately show ?thesis using L by (auto simp: CIDRMask_def newmask_def)
  qed
  have ipmap: "map (\<lambda>i. newmask ! i AND (IP n ! i OR (newmask ! i XOR Mask n ! i))) [0..<L] = ip"
    unfolding ip_def half_byte_def
    by (rule map_index3 [where f = "\<lambda>a m' m. m' AND (a OR (m' XOR m))"]) (simp_all add: lm L_def)
  have dih: "DivideInHalf n = Some (\<lparr>IP = IP n, Mask = newmask\<rparr>, \<lparr>IP = ip, Mask = newmask\<rparr>)"
    using ipmap cm by (simp add: DivideInHalf_def d(7) Let_def flip: L_def k_def)
  have vip: "val ip = lo n + 2 ^ (hbits n - 1)"
    unfolding ip_def newmask_def
    using val_second [OF refl lt d(5)] d(3) by (simp add: lo_def hbits_def L_def k_def)
  have m1: "lo n mod 2 ^ (hbits n - 1) = 0"
    using d(6) by (rule mod_pow_le) simp
  have h1: "8 * L - Suc k = hbits n - 1" by (simp add: hbits_def L_def k_def)
  have m2: "val ip mod 2 ^ (hbits n - 1) = 0"
    using m1 by (simp add: vip)
  have sk: "Suc k \<le> 8 * L" using lt by (simp add: k_def L_def)
  have c1: "canonical \<lparr>IP = IP n, Mask = newmask\<rparr>" "plen \<lparr>IP = IP n, Mask = newmask\<rparr> = Suc k"
    unfolding newmask_def L_def
    using canonicalI [of "IP n" "Suc k"] d(1) sk m1 h1 by (simp_all add: L_def lo_def)
  have c2: "canonical \<lparr>IP = ip, Mask = newmask\<rparr>" "plen \<lparr>IP = ip, Mask = newmask\<rparr> = Suc k"
    unfolding newmask_def
    using canonicalI [of ip "Suc k"] L sk m2 h1 by (simp_all add: lm)
  show ?thesis
    by (rule that [OF dih c1(1) c2(1)]) (simp_all add: c1 c2 lm L_def k_def lo_def vip [unfolded lo_def])
qed

subsection \<open>IPv4-mapped addresses and \<open>(*net.IPNet).Contains\<close>\<close>

lemma val_append: "val (xs @ ys) = val xs * 256 ^ length ys + val ys"
  by (induction xs) (simp_all add: algebra_simps power_add)

lemma val_take_drop:
  assumes "length ip = 16"
  shows "val ip = val (take 12 ip) * 2 ^ 32 + val (drop 12 ip)" and "val (drop 12 ip) < 2 ^ 32"
    and "val ip div 2 ^ 32 = val (take 12 ip)"
proof -
  have "val ip = val (take 12 ip @ drop 12 ip)" by simp
  also have "\<dots> = val (take 12 ip) * 256 ^ 4 + val (drop 12 ip)"
    using assms by (simp only: val_append) simp
  finally show 1: "val ip = val (take 12 ip) * 2 ^ 32 + val (drop 12 ip)" by simp
  show 2: "val (drop 12 ip) < 2 ^ 32" using val_lt2 [of "drop 12 ip" 4] assms by simp
  show "val ip div 2 ^ 32 = val (take 12 ip)" unfolding 1 using 2 by simp
qed

lemma To4_mapped_iff:
  assumes "length ip = 16"
  shows "To4 ip \<noteq> None \<longleftrightarrow> val ip div 2 ^ 32 = 65535"
proof -
  have "To4 ip \<noteq> None \<longleftrightarrow> take 12 ip = replicate 10 0 @ [0xff, 0xff]"
  proof -
    from assms obtain b0 b1 b2 b3 b4 b5 b6 b7 b8 b9 b10 b11 r
      where "ip = [b0, b1, b2, b3, b4, b5, b6, b7, b8, b9, b10, b11] @ r"
      by (auto simp: eval_nat_numeral length_Suc_conv)
    then show ?thesis using assms
      by (auto simp: To4_def isZeros_def eval_nat_numeral)
  qed
  also have "\<dots> \<longleftrightarrow> val (take 12 ip) = val (replicate 10 0 @ [0xff, 0xff])"
    using assms by (subst val_inj) simp_all
  also have "val (replicate 10 0 @ [0xff, 0xff]) = 65535"
    by (simp add: val_append)
  finally have r: "To4 ip \<noteq> None \<longleftrightarrow> val (take 12 ip) = 65535" .
  show ?thesis unfolding val_take_drop(3) [OF assms] by (rule r)
qed

lemma To4_len4: "length ip = 4 \<Longrightarrow> To4 ip = Some ip"
  by (simp add: To4_def)

lemma To4_mapped_Some: "length ip = 16 \<Longrightarrow> To4 ip \<noteq> None \<Longrightarrow> To4 ip = Some (drop 12 ip)"
  by (auto simp: To4_def split: if_splits)

lemma drop_cidr_fill: "drop j (cidr_fill l k) = cidr_fill (l - j) (k - 8 * j)"
proof (induction j arbitrary: l k)
  case 0 show ?case by simp
next
  case (Suc j)
  show ?case
  proof (cases l)
    case 0 then show ?thesis by simp
  next
    case (Suc l')
    have "drop (Suc j) (cidr_fill (Suc l') k) = drop j (cidr_fill l' (k - 8))"
      by (simp only: cidr_fill_Suc drop_Suc_Cons)
    also have "\<dots> = cidr_fill (l' - j) (k - 8 - 8 * j)" by (rule Suc.IH)
    finally show ?thesis by (simp add: Suc)
  qed
qed

lemma masked_index:
  assumes "length nn = l" "length m = l" "length ip = l"
  shows "list_all (\<lambda>i. nn ! i AND m ! i = ip ! i AND m ! i) [0..<l] \<longleftrightarrow> map2 (AND) nn m = map2 (AND) ip m"
proof -
  have "map2 (AND) nn m = map2 (AND) ip m \<longleftrightarrow> (\<forall>i<l. map2 (AND) nn m ! i = map2 (AND) ip m ! i)"
    using assms by (simp add: list_eq_iff_nth_eq)
  also have "\<dots> \<longleftrightarrow> (\<forall>i<l. nn ! i AND m ! i = ip ! i AND m ! i)"
    using assms by simp
  also have "\<dots> \<longleftrightarrow> list_all (\<lambda>i. nn ! i AND m ! i = ip ! i AND m ! i) [0..<l]"
    by (auto simp: list_all_iff)
  finally show ?thesis by simp
qed

lemma mapped_hbits:
  assumes "canonical n" and "length (IP n) = 16" and "To4 (IP n) \<noteq> None"
  shows "hbits n \<le> 32"
proof (rule ccontr)
  assume "\<not> hbits n \<le> 32"
  then have h: "33 \<le> hbits n" by simp
  have "lo n mod 2 ^ 33 = 0"
    using canonicalD(6) [OF assms(1)] h by (rule mod_pow_le)
  then have "2 ^ 33 dvd lo n" by (simp add: dvd_eq_mod_eq_0)
  then obtain q where q: "lo n = 2 ^ 33 * q" by (auto simp: dvd_def)
  have "lo n div 2 ^ 32 = 2 * q" by (simp add: q)
  moreover have "lo n div 2 ^ 32 = 65535"
    unfolding lo_def using To4_mapped_iff [OF assms(2)] assms(3) by blast
  ultimately have "2 * q = 65535" by simp
  then show False by arith
qed

lemma div_pow_le:
  fixes a b :: nat
  assumes "a div 2 ^ h = b div 2 ^ h" and "h \<le> h'"
  shows "a div 2 ^ h' = b div 2 ^ h'"
proof -
  have e: "(2::nat) ^ h' = 2 ^ h * 2 ^ (h' - h)"
    using assms(2) by (simp flip: power_add)
  have "a div 2 ^ h' = (a div 2 ^ h) div 2 ^ (h' - h)" for a :: nat
    unfolding e by (rule div_mult2_eq)
  then show ?thesis using assms(1) by simp
qed

text \<open>\<open>(*net.IPNet).Contains\<close> on a network whose mask has \<open>k\<close> leading one bits, whatever the
  bits of its address beyond the mask.\<close>

lemma IPNet_Contains_masked:
  assumes L: "length (IP n) = 4 \<or> length (IP n) = 16"
    and k: "k \<le> 8 * length (IP n)"
    and m: "Mask n = cidr_fill (length (IP n)) k"
    and mp: "length (IP n) = 16 \<and> To4 (IP n) \<noteq> None \<longrightarrow> 96 \<le> k"
    and len: "length ip = length (IP n)"
  shows "IPNet_Contains n ip \<longleftrightarrow>
     val ip div 2 ^ (8 * length (IP n) - k) = val (IP n) div 2 ^ (8 * length (IP n) - k) \<and>
     \<not> (length ip = 16 \<and> To4 (IP n) = None \<and> To4 ip \<noteq> None)"
proof -
  define L where "L = length (IP n)"
  define h where "h = 8 * L - k"
  have lm: "length (Mask n) = L" by (subst m) (simp add: L_def)
  have direct: "list_all (\<lambda>i. IP n ! i AND Mask n ! i = ip ! i AND Mask n ! i) [0..<L]
      \<longleftrightarrow> val ip div 2 ^ h = val (IP n) div 2 ^ h"
  proof -
    have "list_all (\<lambda>i. IP n ! i AND Mask n ! i = ip ! i AND Mask n ! i) [0..<L]
      \<longleftrightarrow> map2 (AND) (IP n) (Mask n) = map2 (AND) ip (Mask n)"
      by (rule masked_index) (simp_all add: L_def lm [unfolded L_def] len)
    also have "\<dots> \<longleftrightarrow> val (IP n) div 2 ^ (8 * L - k) = val ip div 2 ^ (8 * L - k)"
      using masked_eq_val [of "IP n" L ip k] k len
      by (subst (1 2) m) (simp add: L_def)
    finally show ?thesis by (auto simp: h_def)
  qed
  consider (v4) "L = 4" | (plain) "L = 16" "To4 (IP n) = None"
    | (mapped) "L = 16" "To4 (IP n) \<noteq> None"
    using assms(1) by (auto simp: L_def)
  then have "IPNet_Contains n ip \<longleftrightarrow>
     val ip div 2 ^ h = val (IP n) div 2 ^ h \<and>
     \<not> (length ip = 16 \<and> To4 (IP n) = None \<and> To4 ip \<noteq> None)"
  proof cases
    case v4
    then have "networkNumberAndMask n = (IP n, Mask n)"
      using lm by (simp add: networkNumberAndMask_def To4_len4 L_def)
    then show ?thesis using direct v4 len
      by (simp add: IPNet_Contains_def To4_len4 L_def Let_def)
  next
    case plain
    then have nn: "networkNumberAndMask n = (IP n, Mask n)"
      using lm by (simp add: networkNumberAndMask_def L_def)
    show ?thesis
    proof (cases "To4 ip")
      case None
      then show ?thesis using direct nn plain len
        by (simp add: IPNet_Contains_def L_def Let_def)
    next
      case (Some x)
      then have "length x = 4" by (rule To4_length)
      then show ?thesis using nn plain len Some
        by (simp add: IPNet_Contains_def L_def Let_def)
    qed
  next
    case mapped
    have l16: "length (IP n) = 16" using mapped(1) by (simp add: L_def)
    have k96: "96 \<le> k" using mp l16 mapped(2) by simp
    have h32: "h \<le> 32" using k96 by (simp add: h_def mapped(1))
    have t4: "To4 (IP n) = Some (drop 12 (IP n))"
      using l16 mapped(2) by (rule To4_mapped_Some)
    have nn: "networkNumberAndMask n = (drop 12 (IP n), drop 12 (Mask n))"
      using lm l16 by (simp add: networkNumberAndMask_def t4 L_def)
    have lo65: "val (IP n) div 2 ^ 32 = 65535"
      using To4_mapped_iff [OF l16] mapped(2) by blast
    show ?thesis
    proof (cases "To4 ip")
      case None
      have "val ip div 2 ^ h \<noteq> val (IP n) div 2 ^ h"
      proof
        assume "val ip div 2 ^ h = val (IP n) div 2 ^ h"
        from div_pow_le [OF this h32] lo65 have "val ip div 2 ^ 32 = 65535" by (rule trans)
        then have "To4 ip \<noteq> None" using To4_mapped_iff [of ip] len l16 by simp
        with None show False by simp
      qed
      then show ?thesis using nn None len l16
        by (simp add: IPNet_Contains_def Let_def)
    next
      case (Some x)
      then have x: "x = drop 12 ip" using To4_mapped_Some [of ip] len l16 by simp
      have ip65: "val ip div 2 ^ 32 = 65535"
        using Some len l16 To4_mapped_iff [of ip] by simp
      have dm: "drop 12 (Mask n) = cidr_fill 4 (k - 96)"
        by (subst m) (simp add: drop_cidr_fill l16)
      have k4: "k - 96 \<le> 8 * 4" "8 * 4 - (k - 96) = h"
        using k k96 by (simp_all add: h_def mapped(1) l16)
      have "list_all (\<lambda>i. drop 12 (IP n) ! i AND drop 12 (Mask n) ! i
                = drop 12 ip ! i AND drop 12 (Mask n) ! i) [0..<4]
          \<longleftrightarrow> map2 (AND) (drop 12 (IP n)) (drop 12 (Mask n)) = map2 (AND) (drop 12 ip) (drop 12 (Mask n))"
        by (rule masked_index) (simp_all add: l16 len lm mapped(1))
      also have "\<dots> \<longleftrightarrow> val (drop 12 (IP n)) div 2 ^ h = val (drop 12 ip) div 2 ^ h"
        unfolding dm using masked_eq_val [of "drop 12 (IP n)" 4 "drop 12 ip" "k - 96"] k4 l16 len
        by simp
      also have "\<dots> \<longleftrightarrow> val (IP n) div 2 ^ h = val ip div 2 ^ h"
      proof -
        have e: "val y div 2 ^ h = 65535 * 2 ^ (32 - h) + val (drop 12 y) div 2 ^ h"
          if "length y = 16" "val y div 2 ^ 32 = 65535" for y
        proof -
          have "val y = 65535 * 2 ^ 32 + val (drop 12 y)"
            using val_take_drop(1,3) [OF that(1)] that(2) by simp
          then show ?thesis
            using div_shift1 [OF val_take_drop(2) [OF that(1)] h32, of 65535] by simp
        qed
        show ?thesis
          using e [OF l16] e [of ip] lo65 ip65 len l16 by simp
      qed
      finally show ?thesis using nn Some x len l16 mapped(2)
        by (auto simp: IPNet_Contains_def Let_def)
    qed
  qed
  then show ?thesis by (simp add: h_def L_def)
qed

lemma IPNet_Contains_canonical:
  assumes c: "canonical n" and len: "length ip = length (IP n)"
  shows "IPNet_Contains n ip \<longleftrightarrow>
     val ip div 2 ^ hbits n = lo n div 2 ^ hbits n \<and>
     \<not> (length ip = 16 \<and> To4 (IP n) = None \<and> To4 ip \<noteq> None)"
proof -
  note d = canonicalD [OF c]
  have "length (IP n) = 16 \<and> To4 (IP n) \<noteq> None \<longrightarrow> 96 \<le> plen n"
    using mapped_hbits [OF c] d(2) by (auto simp: hbits_def)
  from IPNet_Contains_masked [OF d(1,2,3) this len] show ?thesis
    by (simp add: hbits_def lo_def)
qed

subsection \<open>\<open>ContainsNet\<close> on canonical networks\<close>

lemma val_replicate_ff: "val (replicate l (- 1)) = 2 ^ (8 * l) - 1"
proof (induction l)
  case 0 show ?case by simp
next
  case (Suc l)
  have u: "unat (- 1 :: byte) = 255" by (simp add: unsigned_minus_1_eq_mask mask_eq_exp_minus_1)
  have "val (replicate (Suc l) (- 1)) = 255 * 2 ^ (8 * l) + (2 ^ (8 * l) - 1)"
    by (simp only: replicate_Suc val.simps u Suc length_replicate pow256)
  also have "\<dots> = 2 ^ (8 * Suc l) - 1"
  proof -
    have "(2::nat) ^ (8 * Suc l) = 256 * 2 ^ (8 * l)" by (simp add: power_add)
    moreover have "(1::nat) \<le> 2 ^ (8 * l)" by simp
    ultimately show ?thesis by arith
  qed
  finally show ?case .
qed

lemma map2_and_ff: "length m = l \<Longrightarrow> map2 (AND) (replicate l (- 1)) m = (m :: byte list)"
  by (induction m arbitrary: l) auto

lemma pow_pred_div:
  assumes "h \<le> n"
  shows "((2::nat) ^ n - 1) div 2 ^ h = 2 ^ (n - h) - 1"
proof -
  have e: "(2::nat) ^ n = 2 ^ (n - h) * 2 ^ h" using assms by (simp flip: power_add)
  have "(2::nat) ^ n - 1 = (2 ^ (n - h) - 1) * 2 ^ h + (2 ^ h - 1)"
  proof -
    have "(1::nat) \<le> 2 ^ (n - h)" "(1::nat) \<le> 2 ^ h" by simp_all
    then have "(2 ^ (n - h) - 1) * 2 ^ h + (2 ^ h - 1) = 2 ^ (n - h) * 2 ^ h - (1::nat)"
      by (simp add: diff_mult_distrib)
    then show ?thesis by (simp only: e)
  qed
  moreover have g: "(q * p + r) div p = q" if "r < p" for q p r :: nat
    using that by simp
  have "((2 ^ (n - h) - 1) * 2 ^ h + (2 ^ h - 1)) div 2 ^ h = 2 ^ (n - h) - (1::nat)"
    by (rule g) simp
  ultimately show ?thesis by (simp only:)
qed

lemma val_cidr_fill:
  assumes "k \<le> 8 * l"
  shows "val (cidr_fill l k) = 2 ^ (8 * l) - 2 ^ (8 * l - k)"
proof -
  have "val (cidr_fill l k) = val (map2 (AND) (replicate l (- 1)) (cidr_fill l k))"
    by (simp add: map2_and_ff)
  also have "\<dots> = ((2 ^ (8 * l) - 1) div 2 ^ (8 * l - k)) * 2 ^ (8 * l - k)"
    using val_mask_and [of "replicate l (- 1)" l k] assms by (simp add: val_replicate_ff)
  also have "\<dots> = (2 ^ (8 * l - (8 * l - k)) - 1) * 2 ^ (8 * l - k)"
    by (subst pow_pred_div) simp_all
  also have "\<dots> = 2 ^ (8 * l) - 2 ^ (8 * l - k)"
    using assms by (simp add: diff_mult_distrib flip: power_add)
  finally show ?thesis .
qed

lemma mask_order:
  assumes "k \<le> 8 * l" and "k' \<le> 8 * l"
  shows "bytes_Compare (cidr_fill l k) (cidr_fill l k') \<le> 0 \<longleftrightarrow> k \<le> k'"
proof -
  have "bytes_Compare (cidr_fill l k) (cidr_fill l k') \<le> 0
      \<longleftrightarrow> val (cidr_fill l k) \<le> val (cidr_fill l k')"
    using addr_le_val [of "cidr_fill l k" "cidr_fill l k'"] by (simp add: addr_le_def)
  also have "\<dots> \<longleftrightarrow> (2::nat) ^ (8 * l) - 2 ^ (8 * l - k) \<le> 2 ^ (8 * l) - 2 ^ (8 * l - k')"
    by (simp only: val_cidr_fill [OF assms(1)] val_cidr_fill [OF assms(2)])
  also have "\<dots> \<longleftrightarrow> (2::nat) ^ (8 * l - k') \<le> 2 ^ (8 * l - k)"
  proof -
    have "(2::nat) ^ (8 * l - k) \<le> 2 ^ (8 * l)" "(2::nat) ^ (8 * l - k') \<le> 2 ^ (8 * l)"
      by simp_all
    then show ?thesis by arith
  qed
  also have "\<dots> \<longleftrightarrow> 8 * l - k' \<le> 8 * l - k" by simp
  also have "\<dots> \<longleftrightarrow> k \<le> k'" using assms by arith
  finally show ?thesis .
qed

lemma div_mod_zero_eq:
  fixes a b p :: nat
  assumes "a div p = b div p" "a mod p = 0" "b mod p = 0"
  shows "a = b"
  by (metis assms div_mult_mod_eq)

lemma ContainsNet_canonical:
  assumes cn: "canonical n" and ci: "canonical i" and len: "length (IP n) = length (IP i)"
  shows "ContainsNet n i \<longleftrightarrow>
     plen n \<le> plen i \<and> lo i div 2 ^ hbits n = lo n div 2 ^ hbits n \<and>
     \<not> (length (IP n) = 16 \<and> To4 (IP n) = None \<and> To4 (IP i) \<noteq> None)"
proof -
  note dn = canonicalD [OF cn] and di = canonicalD [OF ci]
  have ic: "IPNet_Contains n (IP i) \<longleftrightarrow>
     lo i div 2 ^ hbits n = lo n div 2 ^ hbits n \<and>
     \<not> (length (IP n) = 16 \<and> To4 (IP n) = None \<and> To4 (IP i) \<noteq> None)"
    using IPNet_Contains_canonical [OF cn len [symmetric]] len by (simp add: lo_def)
  have eq: "ip_Equal (IP n) (IP i) \<longleftrightarrow> IP n = IP i"
    using len by (simp add: ip_Equal_def)
  have mo: "bytes_Compare (Mask n) (Mask i) \<le> 0 \<longleftrightarrow> plen n \<le> plen i"
    using mask_order [OF dn(2), of "plen i"] di(2) len
    by (subst dn(3), subst di(3)) simp
  show ?thesis
  proof (cases "IP n = IP i")
    case True
    then have "lo i = lo n" by (simp add: lo_def)
    moreover have "ip_Equal (IP n) (IP i)" by (simp add: ip_Equal_def True)
    moreover have "\<not> (To4 (IP n) = None \<and> To4 (IP i) \<noteq> None)" using True by auto
    ultimately show ?thesis
      by (simp add: ContainsNet_def len mo ic)
  next
    case False
    then have ne: "lo i \<noteq> lo n" using len by (simp add: lo_def val_inj)
    have "plen n \<le> plen i" if d: "lo i div 2 ^ hbits n = lo n div 2 ^ hbits n"
    proof (rule ccontr)
      assume "\<not> plen n \<le> plen i"
      then have "hbits n \<le> hbits i" using len by (simp add: hbits_def)
      with di(6) have "lo i mod 2 ^ hbits n = 0" by (rule mod_pow_le)
      from d this dn(6) have "lo i = lo n" by (rule div_mod_zero_eq)
      with ne show False by simp
    qed
    with False show ?thesis
      by (auto simp: ContainsNet_def len eq ic)
  qed
qed

lemma ContainsNet_refl: "canonical n \<Longrightarrow> ContainsNet n n"
  by (auto simp: ContainsNet_canonical)

subsection \<open>The two halves partition a network\<close>

lemma in_net_range:
  assumes "canonical n"
  shows "in_net x n \<longleftrightarrow> length x = length (IP n) \<and> lo n \<le> val x \<and> val x \<le> lo n + 2 ^ hbits n - 1"
  using in_net_canonical [OF assms, of x] block_range [OF canonicalD(6) [OF assms], of "val x"]
  by simp

lemma ContainsNet_sound:
  assumes "canonical n" "canonical i" "ContainsNet n i" "in_net x i"
  shows "in_net x n"
proof -
  have len: "length (IP n) = length (IP i)"
    using assms(3) by (auto simp: ContainsNet_def split: if_splits)
  from assms(3) have p: "plen n \<le> plen i" and d: "lo i div 2 ^ hbits n = lo n div 2 ^ hbits n"
    by (simp_all add: ContainsNet_canonical [OF assms(1,2) len])
  from p len have h: "hbits i \<le> hbits n" by (simp add: hbits_def)
  from assms(4) have lx: "length x = length (IP i)" and "val x div 2 ^ hbits i = lo i div 2 ^ hbits i"
    by (simp_all add: in_net_canonical [OF assms(2)])
  from div_pow_le [OF this(2) h] d have "val x div 2 ^ hbits n = lo n div 2 ^ hbits n" by simp
  with lx len show ?thesis by (simp add: in_net_canonical [OF assms(1)])
qed

lemma lo_in_net: "canonical n \<Longrightarrow> in_net (IP n) n"
  by (simp add: in_net_canonical lo_def)

lemma halves:
  assumes c: "canonical a" and c1: "canonical first" and c2: "canonical second"
    and ip1: "IP first = IP a" and l2: "length (IP second) = length (IP a)"
    and p1: "plen first = Suc (plen a)" and p2: "plen second = Suc (plen a)"
    and lo2: "lo second = lo a + 2 ^ (hbits a - 1)"
    and lt: "plen a < 8 * length (IP a)"
  shows "in_net x a \<longleftrightarrow> in_net x first \<or> in_net x second"
    and "\<not> (in_net x first \<and> in_net x second)"
proof -
  define p :: nat where "p = 2 ^ (hbits a - 1)"
  have ha: "hbits a = Suc (hbits a - 1)" using lt by (simp add: hbits_def)
  have pp: "0 < p" by (simp add: p_def)
  have e: "(2::nat) ^ hbits a = 2 * p" unfolding p_def by (subst ha) simp
  have h1: "hbits first = hbits a - 1" "hbits second = hbits a - 1"
    by (simp_all add: hbits_def p1 p2 ip1 l2)
  have l1: "lo first = lo a" by (simp add: lo_def ip1)
  have A: "in_net x a \<longleftrightarrow> length x = length (IP a) \<and> lo a \<le> val x \<and> val x \<le> lo a + 2 * p - 1"
    by (simp only: in_net_range [OF c] e)
  have F: "in_net x first \<longleftrightarrow> length x = length (IP a) \<and> lo a \<le> val x \<and> val x \<le> lo a + p - 1"
    by (simp only: in_net_range [OF c1] h1 l1 ip1 p_def)
  have S: "in_net x second \<longleftrightarrow> length x = length (IP a) \<and> lo a + p \<le> val x \<and> val x \<le> lo a + p + p - 1"
    by (simp only: in_net_range [OF c2] h1 lo2 l2 p_def)
  show "in_net x a \<longleftrightarrow> in_net x first \<or> in_net x second"
    unfolding A F S using pp by arith
  show "\<not> (in_net x first \<and> in_net x second)"
    unfolding F S using pp by arith
qed

subsection \<open>\<open>Difference\<close> on canonical networks\<close>

definition diff_ok :: "IPNet \<Rightarrow> IPNet \<Rightarrow> IPNet list \<Rightarrow> bool" where
  "diff_ok a b r \<longleftrightarrow>
     (\<forall>n\<in>set r. canonical n \<and> length (IP n) = length (IP a) \<and> plen a < plen n) \<and>
     (\<forall>x. (\<exists>n\<in>set r. in_net x n) \<longleftrightarrow> in_net x a \<and> \<not> in_net x b) \<and>
     sorted_wrt (\<lambda>p q. \<forall>x. \<not> (in_net x p \<and> in_net x q)) r \<and>
     sorted_wrt (\<lambda>p q. Size q < Size p) r"

lemma canonical_eqI:
  assumes "canonical a" "canonical b" "length (IP a) = length (IP b)"
    "plen a = plen b" "lo a = lo b"
  shows "a = b"
proof -
  have "IP a = IP b" using assms(3,5) by (simp add: lo_def val_inj)
  moreover have "Mask a = Mask b"
    using canonicalD(3) [OF assms(1)] canonicalD(3) [OF assms(2)] assms(3,4) by simp
  ultimately show ?thesis by simp
qed

lemma Difference_contained:
  assumes "canonical a" "canonical b" "ContainsNet a b"
  shows "\<exists>r. Difference a b = Some r \<and> diff_ok a b r"
  using assms
proof (induction "hbits a" arbitrary: a rule: less_induct)
  case less
  note ca = \<open>canonical a\<close> and cb = \<open>canonical b\<close> and cab = \<open>ContainsNet a b\<close>
  have len: "length (IP a) = length (IP b)"
    using cab by (auto simp: ContainsNet_def split: if_splits)
  from cab have pab: "plen a \<le> plen b"
    and dab: "lo b div 2 ^ hbits a = lo a div 2 ^ hbits a"
    and nq: "\<not> (length (IP a) = 16 \<and> To4 (IP a) = None \<and> To4 (IP b) \<noteq> None)"
    by (simp_all add: ContainsNet_canonical [OF ca cb len])
  note da = canonicalD [OF ca] and db = canonicalD [OF cb]
  show ?case
  proof (cases "ContainsNet b a")
    case True
    then have d: "Difference a b = Some []"
      by (subst Difference.simps) (simp add: len)
    have "in_net x b" if "in_net x a" for x
      using cb ca True that by (rule ContainsNet_sound)
    then have "diff_ok a b []" by (auto simp: diff_ok_def)
    with d show ?thesis by simp
  next
    case False
    have plt: "plen a < plen b"
    proof (rule ccontr)
      assume "\<not> plen a < plen b"
      with pab have pe: "plen a = plen b" by simp
      then have "hbits a = hbits b" using len by (simp add: hbits_def)
      with dab da(6) db(6) have "lo b = lo a" by (metis div_mod_zero_eq)
      with ca cb len pe have "a = b" by (intro canonical_eqI) simp_all
      with False ContainsNet_refl [OF ca] show False by simp
    qed
    then have lt: "plen a < 8 * length (IP a)" using db(2) len by simp
    from DivideInHalf_canonical [OF ca lt] obtain first second where
      dih: "DivideInHalf a = Some (first, second)"
      and c1: "canonical first" and c2: "canonical second"
      and ip1: "IP first = IP a" and l2: "length (IP second) = length (IP a)"
      and p1: "plen first = Suc (plen a)" and p2: "plen second = Suc (plen a)"
      and lo2: "lo second = lo a + 2 ^ (hbits a - 1)" by blast
    note hv = halves [OF ca c1 c2 ip1 l2 p1 p2 lo2 lt]
    have h1: "hbits first = hbits a - 1" "hbits second = hbits a - 1" "hbits a - 1 < hbits a"
      using lt by (simp_all add: hbits_def p1 p2 ip1 l2)
    have sz: "Size first = 2 ^ (hbits a - 1)" "Size second = 2 ^ (hbits a - 1)"
      by (simp_all add: Size_canonical c1 c2 h1)
    have bin: "in_net (IP b) a" using ca cb cab lo_in_net [OF cb] by (rule ContainsNet_sound)
    have cmp: "bytes_Compare (IP b) (IP second) < 0 \<longleftrightarrow> \<not> in_net (IP b) second"
    proof -
      have "bytes_Compare (IP b) (IP second) < 0 \<longleftrightarrow> lo b < lo second"
        using len l2 by (simp add: bytes_Compare_less_val lo_def)
      moreover have "lo b \<le> lo a + 2 ^ hbits a - 1"
        using bin by (simp add: in_net_range [OF ca] lo_def)
      moreover have "lo second + 2 ^ hbits second - 1 = lo a + 2 ^ hbits a - 1"
      proof -
        have "hbits a = Suc (hbits a - 1)" using h1(3) by simp
        then have "(2::nat) ^ hbits a = 2 * 2 ^ (hbits a - 1)" by (metis power_Suc)
        then show ?thesis by (simp add: lo2 h1)
      qed
      ultimately show ?thesis
        using len l2 by (auto simp: in_net_range [OF c2] lo_def)
    qed
    have sub_contains: "ContainsNet h b" 
      if ch: "canonical h" and lh: "length (IP h) = length (IP a)" and ph: "plen h = Suc (plen a)"
        and hh: "hbits h = hbits a - 1" and inb: "in_net (IP b) h"
        and mp: "length (IP a) = 16 \<Longrightarrow> To4 (IP a) \<noteq> None \<Longrightarrow> To4 (IP h) \<noteq> None" for h
    proof -
      have "lo b div 2 ^ hbits h = lo h div 2 ^ hbits h"
        using inb by (simp add: in_net_canonical [OF ch] lo_def)
      moreover have "plen h \<le> plen b" using plt ph by simp
      moreover have "\<not> (length (IP h) = 16 \<and> To4 (IP h) = None \<and> To4 (IP b) \<noteq> None)"
        using nq mp lh by auto
      ultimately show ?thesis
        using lh len by (simp add: ContainsNet_canonical [OF ch cb])
    qed
    have step: "\<exists>r. Difference h b = Some r \<and> diff_ok a b (g # r)"
      if ch: "canonical h" and cg: "canonical g"
        and lh: "length (IP h) = length (IP a)" and lg: "length (IP g) = length (IP a)"
        and ph: "plen h = Suc (plen a)" and pg: "plen g = Suc (plen a)"
        and hh: "hbits h = hbits a - 1" and hg: "hbits g = hbits a - 1"
        and part: "\<And>x. in_net x a \<longleftrightarrow> in_net x h \<or> in_net x g"
        and disj: "\<And>x. \<not> (in_net x h \<and> in_net x g)"
        and chb: "ContainsNet h b" for h g
    proof -
      from less.hyps [of h] hh h1(3) ch cb chb obtain r where
        r: "Difference h b = Some r" and ok: "diff_ok h b r" by auto
      have bh: "in_net x h" if "in_net x b" for x
        using ch cb chb that by (rule ContainsNet_sound)
      have 1: "\<forall>n\<in>set (g # r). canonical n \<and> length (IP n) = length (IP a) \<and> plen a < plen n"
        using ok cg lg pg ph lh by (auto simp: diff_ok_def)
      have 2: "(\<exists>n\<in>set (g # r). in_net x n) \<longleftrightarrow> in_net x a \<and> \<not> in_net x b" for x
      proof -
        have "(\<exists>n\<in>set r. in_net x n) \<longleftrightarrow> in_net x h \<and> \<not> in_net x b"
          using ok by (simp add: diff_ok_def)
        then show ?thesis using part [of x] disj [of x] bh [of x] by auto
      qed
      have 3: "sorted_wrt (\<lambda>p q. \<forall>x. \<not> (in_net x p \<and> in_net x q)) (g # r)"
      proof -
        have "\<not> (in_net x g \<and> in_net x n)" if "n \<in> set r" for n x
        proof -
          have "in_net x n \<Longrightarrow> in_net x h" using ok that by (auto simp: diff_ok_def)
          then show ?thesis using disj [of x] by auto
        qed
        then show ?thesis using ok by (auto simp: diff_ok_def)
      qed
      have 4: "sorted_wrt (\<lambda>p q. Size q < Size p) (g # r)"
      proof -
        have "Size n < Size g" if "n \<in> set r" for n
        proof -
          from ok that have cn: "canonical n" and ln: "length (IP n) = length (IP h)"
            and pn: "plen h < plen n" by (auto simp: diff_ok_def)
          have "plen n \<le> 8 * length (IP n)" using cn by (rule canonicalD(2))
          then have "hbits n < hbits g"
            using pn ln lh ph hg lt by (simp add: hbits_def)
          then show ?thesis by (simp add: Size_canonical cn cg)
        qed
        then show ?thesis using ok by (auto simp: diff_ok_def)
      qed
      from r 1 2 3 4 show ?thesis by (simp add: diff_ok_def)
    qed
    have unf: "Difference a b =
        (if bytes_Compare (IP b) (IP second) < 0
         then Option.bind (Difference first b) (\<lambda>r. Some (second # r))
         else Option.bind (Difference second b) (\<lambda>r. Some (first # r)))"
      by (subst Difference.simps) (simp add: len False cab dih)
    show ?thesis
    proof (cases "in_net (IP b) second")
      case False
      then have inb: "in_net (IP b) first" using bin hv(1) by simp
      have "ContainsNet first b"
        by (rule sub_contains [OF c1 _ p1 h1(1) inb]) (simp_all add: ip1)
      from step [OF c1 c2 _ l2 p1 p2 h1(1,2) hv(1) hv(2) this]
      obtain r where "Difference first b = Some r" "diff_ok a b (second # r)"
        by (auto simp: ip1)
      then show ?thesis using False by (simp add: unf cmp)
    next
      case True
      have mp: "To4 (IP second) \<noteq> None" if l16: "length (IP a) = 16" and ma: "To4 (IP a) \<noteq> None"
      proof -
        have h32: "hbits a \<le> 32" using ca l16 ma by (rule mapped_hbits)
        have "lo a div 2 ^ 32 = 65535"
          unfolding lo_def using To4_mapped_iff [OF l16] ma by blast
        moreover have "lo second mod 2 ^ hbits second = 0" using c2 by (rule canonicalD(6))
        have "lo second div 2 ^ 32 = lo a div 2 ^ 32"
        proof -
          have "in_net (IP second) a" using hv(1) lo_in_net [OF c2] by simp
          then have "lo second div 2 ^ hbits a = lo a div 2 ^ hbits a"
            by (simp add: in_net_canonical [OF ca] lo_def)
          then show ?thesis using h32 by (rule div_pow_le)
        qed
        ultimately have "val (IP second) div 2 ^ 32 = 65535" by (simp only: lo_def)
        then show ?thesis using To4_mapped_iff [of "IP second"] l2 l16 by simp
      qed
      have "ContainsNet second b"
        by (rule sub_contains [OF c2 l2 p2 h1(2) True mp])
      moreover have part': "in_net x a \<longleftrightarrow> in_net x second \<or> in_net x first" for x
        using hv(1) [of x] by auto
      moreover have "\<not> (in_net x second \<and> in_net x first)" for x
        using hv(2) [of x] by auto
      ultimately obtain r where "Difference second b = Some r" "diff_ok a b (first # r)"
        using step [OF c2 c1 l2 _ p2 p1 h1(2,1), of] ip1 by auto
      then show ?thesis using True by (simp add: unf cmp)
    qed
  qed
qed

subsection \<open>\<open>incrementIP\<close> and \<open>Expand\<close>\<close>

lemma inc_bytes_False [simp]: "inc_bytes False xs = xs"
  by (induction xs) simp_all

lemma length_inc_bytes [simp]: "length (inc_bytes c xs) = length xs"
  by (induction xs arbitrary: c) simp_all

lemma val_snoc: "val (xs @ [b]) = val xs * 256 + unat b"
  by (simp add: val_append)

lemma unat_byte_succ:
  "unat (b :: byte) < 255 \<Longrightarrow> unat (b + 1) = unat b + 1 \<and> b + 1 \<noteq> 0"
  "unat (b :: byte) = 255 \<Longrightarrow> b + 1 = 0"
proof -
  assume a: "unat b < 255"
  then have "unat b + unat (1 :: byte) < 2 ^ LENGTH(8)" by simp
  then have "unat (b + 1) = unat b + unat (1 :: byte)" by (simp only: unat_add_lem)
  then have "unat (b + 1) = unat b + 1" by simp
  moreover from this have "b + 1 \<noteq> 0" by (auto simp: word_unat_eq_iff)
  ultimately show "unat (b + 1) = unat b + 1 \<and> b + 1 \<noteq> 0" by simp
next
  assume "unat b = 255"
  then have "b = 255" by (simp add: word_unat_eq_iff)
  then show "b + 1 = 0" by simp
qed

lemma val_inc_bytes:
  "val (rev (inc_bytes True xs)) = (val (rev xs) + 1) mod 256 ^ length xs"
proof (induction xs)
  case Nil show ?case by simp
next
  case (Cons b bs)
  define V where "V = val (rev bs)"
  define n where "n = length bs"
  have V: "V < 256 ^ n" unfolding V_def n_def using val_lt [of "rev bs"] by simp
  have ub: "unat b < 256" by (rule unat_byte_lt)
  show ?case
  proof (cases "unat b = 255")
    case True
    then have z: "b + 1 = 0" by (rule unat_byte_succ(2))
    have "val (rev (inc_bytes True (b # bs))) = ((V + 1) mod 256 ^ n) * 256"
      by (simp add: z val_snoc Cons.IH V_def n_def)
    also have "\<dots> = ((V + 1) * 256) mod (256 ^ n * 256)"
      by (rule mod_mult_mult2 [symmetric])
    also have "(V + 1) * 256 = V * 256 + unat b + 1" by (simp add: True)
    finally show ?thesis by (simp add: val_snoc V_def n_def mult.commute)
  next
    case False
    with ub have "unat b < 255" by simp
    then have s: "unat (b + 1) = unat b + 1" "b + 1 \<noteq> 0" using unat_byte_succ(1) by simp_all
    have "val (rev (inc_bytes True (b # bs))) = V * 256 + unat b + 1"
      by (simp add: s val_snoc V_def)
    moreover have "V * 256 + unat b + 1 < 256 ^ n * 256"
    proof -
      have "Suc V \<le> 256 ^ n" using V by simp
      then have "Suc V * 256 \<le> 256 ^ n * 256" by (rule mult_le_mono1)
      with \<open>unat b < 255\<close> show ?thesis by simp
    qed
    ultimately show ?thesis by (simp add: val_snoc V_def n_def mult.commute)
  qed
qed

lemma incrementIP_val:
  assumes "length ip = 4 \<or> length ip = 16"
  obtains ip' where "incrementIP ip = Some ip'" "length ip' = length ip"
    "val ip' = (val ip + 1) mod 2 ^ (8 * length ip)"
proof -
  define ip' where "ip' = rev (inc_bytes True (rev ip))"
  have 1: "incrementIP ip = Some ip'"
    using assms by (auto simp: incrementIP_def ip'_def Let_def)
  have 2: "length ip' = length ip" by (simp add: ip'_def)
  have 3: "val ip' = (val ip + 1) mod 2 ^ (8 * length ip)"
    unfolding ip'_def using val_inc_bytes [of "rev ip"] by (simp add: pow256)
  from 1 2 3 show ?thesis by (rule that)
qed

lemma expand_loop_spec:
  assumes "length ip = 4 \<or> length ip = 16" and "val ip + k \<le> 2 ^ (8 * length ip)"
  shows "\<exists>ips. expand_loop k ip = Some ips \<and> length ips = k \<and>
           (\<forall>i<k. length (ips ! i) = length ip \<and> val (ips ! i) = val ip + i) \<and>
           (\<forall>i. Suc i < k \<longrightarrow> incrementIP (ips ! i) = Some (ips ! Suc i))"
  using assms
proof (induction k arbitrary: ip)
  case 0
  show ?case by simp
next
  case (Suc k)
  from incrementIP_val [OF Suc.prems(1)] obtain ip' where
    inc: "incrementIP ip = Some ip'" and l': "length ip' = length ip"
    and v': "val ip' = (val ip + 1) mod 2 ^ (8 * length ip)" by blast
  have vk: "val ip' + k \<le> 2 ^ (8 * length ip')" and vs: "0 < k \<Longrightarrow> val ip' = val ip + 1"
  proof -
    show "val ip' + k \<le> 2 ^ (8 * length ip')"
    proof (cases "val ip + 1 < 2 ^ (8 * length ip)")
      case True
      then show ?thesis using Suc.prems(2) by (simp add: v' l')
    next
      case False
      with Suc.prems(2) have "k = 0" by simp
      moreover have "val ip' < 2 ^ (8 * length ip')" by (rule val_lt2) simp
      ultimately show ?thesis by simp
    qed
    show "val ip' = val ip + 1" if "0 < k"
      using that Suc.prems(2) by (simp add: v')
  qed
  from Suc.IH [of ip'] Suc.prems(1) l' vk obtain ips where
    e: "expand_loop k ip' = Some ips" and len: "length ips = k"
    and el: "\<forall>i<k. length (ips ! i) = length ip \<and> val (ips ! i) = val ip' + i"
    and st: "\<forall>i. Suc i < k \<longrightarrow> incrementIP (ips ! i) = Some (ips ! Suc i)"
    by auto
  have r: "expand_loop (Suc k) ip = Some (ip # ips)" by (simp add: inc e)
  have a: "length ((ip # ips) ! i) = length ip \<and> val ((ip # ips) ! i) = val ip + i"
    if "i < Suc k" for i
  proof (cases i)
    case 0 then show ?thesis by simp
  next
    case (Suc j)
    with that have "j < k" by simp
    with el vs Suc show ?thesis by auto
  qed
  have b: "incrementIP ((ip # ips) ! i) = Some ((ip # ips) ! Suc i)" if "Suc i < Suc k" for i
  proof (cases i)
    case 0
    with that have "0 < k" by simp
    have "ips ! 0 = ip'"
    proof -
      from el \<open>0 < k\<close> have "length (ips ! 0) = length ip'" "val (ips ! 0) = val ip'"
        by (auto simp: l')
      then show ?thesis by (simp add: val_inj)
    qed
    with 0 inc show ?thesis by simp
  next
    case (Suc j)
    with that st show ?thesis by simp
  qed
  from r len a b show ?case by auto
qed

lemma block_top:
  assumes "canonical n"
  shows "lo n + 2 ^ hbits n \<le> 2 ^ (8 * length (IP n))"
proof -
  from assms obtain b where b: "length b = length (IP n)" "val b = lo n + 2 ^ hbits n - 1"
    by (rule BroadcastAddr_canonical)
  have "val b < 2 ^ (8 * length (IP n))" using b(1) by (rule val_lt2)
  moreover have "(1::nat) \<le> 2 ^ hbits n" by simp
  ultimately show ?thesis unfolding b(2) by arith
qed

lemma Expand_canonical:
  assumes c: "canonical n" and l0: "0 \<le> limit"
  shows "\<exists>ips. Expand n limit = Some ips \<and>
           length ips = min (nat limit) (min (2 ^ 30) (Size n)) \<and>
           (\<forall>i<length ips. length (ips ! i) = length (IP n) \<and> val (ips ! i) = lo n + i) \<and>
           (\<forall>i. Suc i < length ips \<longrightarrow> incrementIP (ips ! i) = Some (ips ! Suc i))"
proof -
  note d = canonicalD [OF c]
  define h where "h = hbits n"
  define mx :: int where "mx = (if int h < 30 then 2 ^ h else 2 ^ 30)"
  define sz where "sz = (if mx < limit then mx else limit)"
  have bo: "8 * int (length (IP n)) - int (plen n) = int h"
    using d(2) by (simp add: h_def hbits_def)
  have mx: "mx = int (min (2 ^ 30) (2 ^ h))"
  proof (cases "h < 30")
    case True
    then have "(2::nat) ^ h \<le> 2 ^ 30" by (intro power_increasing) simp_all
    then show ?thesis using True by (simp add: mx_def min_def)
  next
    case False
    then have "(2::nat) ^ 30 \<le> 2 ^ h" by (intro power_increasing) simp_all
    then show ?thesis using False by (simp add: mx_def min_def)
  qed
  have sz: "0 \<le> sz" "nat sz = min (nat limit) (min (2 ^ 30) (2 ^ h))"
    using l0 by (auto simp: sz_def mx min_def)
  have "Expand n limit = (if sz < 0 then None else expand_loop (nat sz) (IP n))"
    by (simp add: Expand_def d(7) bo Let_def mx_def sz_def)
  then have ex: "Expand n limit = expand_loop (nat sz) (IP n)"
    using sz(1) by simp
  have "val (IP n) + nat sz \<le> 2 ^ (8 * length (IP n))"
  proof -
    have "nat sz \<le> 2 ^ h" by (simp add: sz(2))
    with block_top [OF c] show ?thesis unfolding lo_def h_def by linarith
  qed
  from expand_loop_spec [OF d(1) this] obtain ips where
    "expand_loop (nat sz) (IP n) = Some ips" "length ips = nat sz"
    "\<forall>i<nat sz. length (ips ! i) = length (IP n) \<and> val (ips ! i) = val (IP n) + i"
    "\<forall>i. Suc i < nat sz \<longrightarrow> incrementIP (ips ! i) = Some (ips ! Suc i)"
    by blast
  then show ?thesis
    by (auto simp: ex sz(2) Size_canonical [OF c] h_def lo_def)
qed

lemma Expand_take:
  assumes c: "canonical n" and r0: "0 \<le> r"
  shows "Expand n r = Some (take (nat r) (Expand_capped n))"
proof -
  from Expand_canonical [OF c r0] obtain A where
    A: "Expand n r = Some A" "length A = min (nat r) (min (2 ^ 30) (Size n))"
    "\<forall>i<length A. length (A ! i) = length (IP n) \<and> val (A ! i) = lo n + i" by blast
  from Expand_canonical [OF c, of "2 ^ 30"] obtain F where
    F: "Expand n (2 ^ 30) = Some F" "length F = min (nat (2 ^ 30)) (min (2 ^ 30) (Size n))"
    "\<forall>i<length F. length (F ! i) = length (IP n) \<and> val (F ! i) = lo n + i" by auto
  have fl: "Expand_capped n = F" by (simp only: Expand_capped_def F(1) option.case)
  have lF: "length F = min (2 ^ 30) (Size n)" using F(2) by simp
  have "A = take (nat r) F"
  proof (rule nth_equalityI)
    show "length A = length (take (nat r) F)" by (simp add: A(2) lF)
  next
    fix i assume i: "i < length A"
    then have iF: "i < length F" "i < nat r" by (simp_all add: A(2) lF)
    from A(3) i F(3) iF(1) have "length (A ! i) = length (F ! i)" "val (A ! i) = val (F ! i)"
      by simp_all
    then have "A ! i = F ! i" by (simp add: val_inj)
    then show "A ! i = take (nat r) F ! i" using iF by simp
  qed
  then show ?thesis by (simp add: A(1) fl)
qed

lemma getips_loop_spec:
  assumes "\<forall>n\<in>set ns. canonical n" and "0 \<le> lim" and "length ips \<le> nat lim"
  shows "getips_loop lim ns ips =
           Some (ips @ take (nat lim - length ips) (concat (map Expand_capped ns)))"
  using assms
proof (induction ns arbitrary: ips)
  case Nil
  show ?case by simp
next
  case (Cons n ns)
  define m where "m = nat lim - length ips"
  have r: "nat (lim - int (length ips)) = m" "0 \<le> lim - int (length ips)"
    using Cons.prems(2,3) by (auto simp: m_def)
  have e: "Expand n (lim - int (length ips)) = Some (take m (Expand_capped n))"
    using Expand_take [of n "lim - int (length ips)"] Cons.prems(1) r by simp
  have l: "length (ips @ take m (Expand_capped n)) \<le> nat lim"
    using Cons.prems(3) by (simp add: m_def)
  have "getips_loop lim (n # ns) ips = getips_loop lim ns (ips @ take m (Expand_capped n))"
    by (simp add: e)
  also have "\<dots> = Some ((ips @ take m (Expand_capped n)) @
        take (nat lim - length (ips @ take m (Expand_capped n))) (concat (map Expand_capped ns)))"
    using Cons.IH [OF _ Cons.prems(2) l] Cons.prems(1) by simp
  also have "nat lim - length (ips @ take m (Expand_capped n)) = m - length (Expand_capped n)"
    by (auto simp: m_def min_def)
  finally show ?case by (simp add: m_def)
qed

subsection \<open>\<open>ParseNet\<close>\<close>

lemma ParseIPNet_ParseNet: "ParseIPNet scan s = ParseNet scan s"
  by (simp add: ParseIPNet_def split: sum.splits)

lemma ParseNet_scanned:
  assumes sc: "scan s = Some (a, n)" and la: "length a = 4 \<or> length a = 16"
    and n0: "0 \<le> n" and n1: "n \<le> 8 * int (length a)"
  shows "ParseNet scan s =
     (if val a mod 2 ^ (8 * length a - nat n) = 0
      then Inr \<lparr>IP = a, Mask = cidr_fill (length a) (nat n)\<rparr>
      else Inl HostPartNotZero)"
proof -
  define m where "m = cidr_fill (length a) (nat n)"
  have lm: "length m = length a" by (simp add: m_def)
  have kn: "nat n \<le> 8 * length a" using n0 n1 by simp
  have cm: "CIDRMask n (8 * int (length a)) = Some m"
    using la n0 n1 by (auto simp: CIDRMask_def m_def)
  have mk: "ip_Mask (As16 a) m = map2 (AND) a m"
  proof -
    have "map (\<lambda>i. a ! i AND m ! i) [0..<length a] = map2 (AND) a m"
      by (rule map_index2) (simp_all add: lm)
    then show ?thesis using la lm
      by (auto simp: ip_Mask_def As16_def Let_def v4InV6Prefix_def)
  qed
  have eq: "ip_Equal (As16 a) (map2 (AND) a m) \<longleftrightarrow> map2 (AND) a m = a"
    using la lm by (auto simp: ip_Equal_def As16_def v4InV6Prefix_def isZeros_def)
  have hz: "map2 (AND) a m = a \<longleftrightarrow> val a mod 2 ^ (8 * length a - nat n) = 0"
    unfolding m_def using hostzero_val [OF refl kn] map2_and_eq_self [of a "cidr_fill (length a) (nat n)"]
    by simp
  have "ParseCIDR scan s = Inr (As16 a, \<lparr>IP = map2 (AND) a m, Mask = m\<rparr>)"
    using n0 n1 by (simp add: ParseCIDR_def sc cm mk Let_def)
  then show ?thesis
    by (auto simp: ParseNet_def eq hz m_def [symmetric])
qed

section \<open>Search trees of canonical networks\<close>

subsection \<open>The order of addresses\<close>

text \<open>\<open>bytes.Compare\<close> is the lexicographic order of byte lists, in which a proper prefix
  is smaller; on addresses of one width it is the order of their values.\<close>

lemma bytes_Compare_less: "bytes_Compare a b < 0 \<longleftrightarrow> a < b"
  by (induction a b rule: bytes_Compare.induct) auto

lemma bytes_Compare_le: "bytes_Compare a b \<le> 0 \<longleftrightarrow> a \<le> b"
  by (induction a b rule: bytes_Compare.induct) auto

lemma list_less_val: "length xs = length ys \<Longrightarrow> xs < ys \<longleftrightarrow> val xs < val (ys :: byte list)"
  using bytes_Compare_less_val [of xs ys] by (simp add: bytes_Compare_less)

lemma list_le_val: "length xs = length ys \<Longrightarrow> xs \<le> ys \<longleftrightarrow> val xs \<le> val (ys :: byte list)"
  using addr_le_val [of xs ys] by (simp add: addr_le_def bytes_Compare_le)

text \<open>\<open>a\<close> lies entirely before \<open>b\<close>: the broadcast address of \<open>a\<close> is smaller than the
  network address of \<open>b\<close>.\<close>

definition before :: "IPNet \<Rightarrow> IPNet \<Rightarrow> bool" where
  "before a b = (case BroadcastAddr a of None \<Rightarrow> False | Some e \<Rightarrow> bytes_Compare e (IP b) < 0)"

text \<open>The search invariant of section 3 of the specification: the left subtree of a node
  holds only networks entirely before the node's network, the right subtree only
  networks entirely after it.\<close>

fun search_tree :: "ipTree \<Rightarrow> bool" where
  "search_tree Leaf = True"
| "search_tree (Node l n r) =
     (search_tree l \<and> search_tree r \<and>
      list_all (\<lambda>m. before m n) (walk l) \<and> list_all (\<lambda>m. before n m) (walk r))"

definition canonical_tree :: "ipTree \<Rightarrow> bool" where
  "canonical_tree t = (search_tree t \<and> list_all canonical (walk t))"

text \<open>The last address of a network.\<close>

definition top :: "IPNet \<Rightarrow> byte list" where
  "top a = (case BroadcastAddr a of None \<Rightarrow> [] | Some e \<Rightarrow> e)"

lemma top_canonical:
  assumes "canonical a"
  shows "BroadcastAddr a = Some (top a)" and "length (top a) = length (IP a)"
    and "val (top a) = lo a + 2 ^ hbits a - 1"
proof -
  from assms obtain e where e: "BroadcastAddr a = Some e" "length e = length (IP a)"
    "val e = lo a + 2 ^ hbits a - 1" by (rule BroadcastAddr_canonical)
  then show "BroadcastAddr a = Some (top a)" "length (top a) = length (IP a)"
    "val (top a) = lo a + 2 ^ hbits a - 1" by (simp_all add: top_def)
qed

lemma before_top: "canonical a \<Longrightarrow> before a b \<longleftrightarrow> top a < IP b"
  by (simp add: before_def top_canonical(1) bytes_Compare_less)

lemma before_less: "before a b \<Longrightarrow> top a < IP b"
  by (auto simp: before_def top_def bytes_Compare_less split: option.splits)

lemma less_before: "BroadcastAddr a \<noteq> None \<Longrightarrow> top a < IP b \<Longrightarrow> before a b"
  by (auto simp: before_def top_def bytes_Compare_less split: option.splits)

lemma before_defined: "before a b \<Longrightarrow> BroadcastAddr a \<noteq> None"
  by (auto simp: before_def split: option.splits)

lemma IP_le_top: "canonical a \<Longrightarrow> IP a \<le> top a"
proof -
  assume c: "canonical a"
  have "(1::nat) \<le> 2 ^ hbits a" by simp
  then have "lo a \<le> lo a + 2 ^ hbits a - 1" by arith
  then show ?thesis
    using top_canonical(2,3) [OF c] by (simp add: list_le_val lo_def)
qed

lemma block_range_lt:
  fixes v l :: nat
  assumes "l mod 2 ^ h = 0"
  shows "l \<le> v \<and> v < l + 2 ^ h \<longleftrightarrow> v div 2 ^ h = l div 2 ^ h"
proof -
  have "(1::nat) \<le> 2 ^ h" by simp
  then have "v < l + 2 ^ h \<longleftrightarrow> v \<le> l + 2 ^ h - 1" by arith
  then show ?thesis using block_range [OF assms, of v] by simp
qed

lemma block_top_div:
  fixes l :: nat
  assumes "l mod 2 ^ h = 0"
  shows "(l + 2 ^ h - 1) div 2 ^ h = l div 2 ^ h"
proof -
  have "(1::nat) \<le> 2 ^ h" by simp
  then have "l \<le> l + 2 ^ h - 1 \<and> l + 2 ^ h - 1 < l + 2 ^ h" by arith
  then show ?thesis by (simp only: block_range_lt [OF assms])
qed

lemma before_val:
  assumes "canonical a" and "length (IP a) = length (IP b)"
  shows "before a b \<longleftrightarrow> lo a + 2 ^ hbits a \<le> lo b"
proof -
  note t = top_canonical [OF assms(1)]
  have "before a b \<longleftrightarrow> val (top a) < lo b"
    using t(2) assms(2) by (simp add: before_top [OF assms(1)] list_less_val lo_def)
  moreover have "(1::nat) \<le> 2 ^ hbits a" by simp
  ultimately show ?thesis unfolding t(3) by arith
qed

lemma in_net_val:
  assumes "canonical a"
  shows "in_net x a \<longleftrightarrow>
     length x = length (IP a) \<and> lo a \<le> val x \<and> val x < lo a + 2 ^ hbits a"
  by (simp only: in_net_canonical [OF assms] block_range_lt [OF canonicalD(6) [OF assms]])

subsection \<open>\<open>ContainsNet\<close> and the containment of ranges\<close>

lemma range_within_val:
  assumes "canonical i" "canonical n" "length (IP i) = length (IP n)"
  shows "range_within i n \<longleftrightarrow> lo n \<le> lo i \<and> lo i + 2 ^ hbits i \<le> lo n + 2 ^ hbits n"
proof -
  from assms(1) obtain bi where bi: "BroadcastAddr i = Some bi" "length bi = length (IP i)"
    "val bi = lo i + 2 ^ hbits i - 1" by (rule BroadcastAddr_canonical)
  from assms(2) obtain bn where bn: "BroadcastAddr n = Some bn" "length bn = length (IP n)"
    "val bn = lo n + 2 ^ hbits n - 1" by (rule BroadcastAddr_canonical)
  have "range_within i n \<longleftrightarrow> lo n \<le> lo i \<and> val bi \<le> val bn"
    using assms(3) bi(2) bn(2)
    by (simp add: range_within_def bi(1) bn(1) NetworkAddr_def addr_le_val lo_def)
  moreover have "(1::nat) \<le> 2 ^ hbits i" "(1::nat) \<le> 2 ^ hbits n" by simp_all
  ultimately show ?thesis unfolding bi(3) bn(3) by arith
qed

lemma range_within_length: "range_within i n \<Longrightarrow> length (IP i) = length (IP n)"
  by (auto simp: range_within_def split: option.splits)

lemma range_within_refl: "canonical a \<Longrightarrow> range_within a a"
  by (simp add: range_within_val)

text \<open>For canonical networks of one width, a prefix at least as long that agrees on the
  bits of the shorter prefix is the same as a range inside the range.\<close>

lemma prefix_range:
  assumes cn: "canonical n" and ci: "canonical i" and len: "length (IP n) = length (IP i)"
  shows "plen n \<le> plen i \<and> lo i div 2 ^ hbits n = lo n div 2 ^ hbits n
      \<longleftrightarrow> range_within i n"
proof -
  note dn = canonicalD [OF cn] and di = canonicalD [OF ci]
  have pn: "(0::nat) < 2 ^ hbits n" and pi: "(0::nat) < 2 ^ hbits i" by simp_all
  have hp: "hbits n + plen n = 8 * length (IP n)" "hbits i + plen i = 8 * length (IP n)"
    using dn(2) di(2) len by (simp_all add: hbits_def)
  have "plen n \<le> plen i \<and> lo i div 2 ^ hbits n = lo n div 2 ^ hbits n
      \<longleftrightarrow> lo n \<le> lo i \<and> lo i + 2 ^ hbits i \<le> lo n + 2 ^ hbits n"
  proof
    assume a: "plen n \<le> plen i \<and> lo i div 2 ^ hbits n = lo n div 2 ^ hbits n"
    then have d: "lo i div 2 ^ hbits n = lo n div 2 ^ hbits n" by simp
    from a hp have h: "hbits i \<le> hbits n" by simp
    from d have r: "lo n \<le> lo i \<and> lo i < lo n + 2 ^ hbits n"
      by (simp only: block_range_lt [OF dn(6)])
    have "(lo i + 2 ^ hbits i - 1) div 2 ^ hbits i = lo i div 2 ^ hbits i"
      by (rule block_top_div [OF di(6)])
    from div_pow_le [OF this h] d
    have "(lo i + 2 ^ hbits i - 1) div 2 ^ hbits n = lo n div 2 ^ hbits n" by simp
    then have "lo i + 2 ^ hbits i - 1 < lo n + 2 ^ hbits n"
      by (simp only: block_range_lt [OF dn(6), symmetric])
    with r pn pi show "lo n \<le> lo i \<and> lo i + 2 ^ hbits i \<le> lo n + 2 ^ hbits n" by arith
  next
    assume r: "lo n \<le> lo i \<and> lo i + 2 ^ hbits i \<le> lo n + 2 ^ hbits n"
    with pi have "lo n \<le> lo i \<and> lo i < lo n + 2 ^ hbits n" by arith
    then have d: "lo i div 2 ^ hbits n = lo n div 2 ^ hbits n"
      by (simp only: block_range_lt [OF dn(6)])
    have "plen n \<le> plen i"
    proof (rule ccontr)
      assume "\<not> plen n \<le> plen i"
      with hp have "hbits n < hbits i" by simp
      then have "(2::nat) ^ hbits n < 2 ^ hbits i" by simp
      with r show False by arith
    qed
    with d show "plen n \<le> plen i \<and> lo i div 2 ^ hbits n = lo n div 2 ^ hbits n" by simp
  qed
  then show ?thesis
    by (simp only: range_within_val [OF ci cn len [symmetric]])
qed

text \<open>Outside the case of a 16-byte network that is not IPv4-mapped and an IPv4-mapped
  inner network, \<open>ContainsNet\<close> is the containment of ranges.\<close>

lemma ContainsNet_range_within:
  assumes cn: "canonical n" and ci: "canonical i" and len: "length (IP n) = length (IP i)"
    and nq: "\<not> (length (IP n) = 16 \<and> To4 (IP n) = None \<and> To4 (IP i) \<noteq> None)"
  shows "ContainsNet n i \<longleftrightarrow> range_within i n"
  using nq by (simp add: ContainsNet_canonical [OF cn ci len] prefix_range [OF cn ci len, symmetric])

text \<open>In every case a network that \<open>ContainsNet\<close> accepts lies within the range.\<close>

lemma ContainsNet_imp_range_within:
  assumes "canonical n" and "canonical i" and "ContainsNet n i"
  shows "range_within i n"
proof -
  have len: "length (IP n) = length (IP i)"
    using assms(3) by (auto simp: ContainsNet_def split: if_splits)
  from assms(3) show ?thesis
    by (simp add: ContainsNet_canonical [OF assms(1,2) len] prefix_range [OF assms(1,2) len, symmetric])
qed

lemma range_within_in_net:
  assumes "canonical i" and "canonical n" and "range_within i n" and "in_net x i"
  shows "in_net x n"
proof -
  have len: "length (IP i) = length (IP n)" using assms(3) by (rule range_within_length)
  have "(0::nat) < 2 ^ hbits i" by simp
  then show ?thesis
    using assms(3,4) len
    unfolding range_within_val [OF assms(1,2) len] in_net_val [OF assms(1)] in_net_val [OF assms(2)]
    by arith
qed

lemma laminar:
  assumes "canonical a" and "canonical b" and "length (IP a) = length (IP b)"
  shows "range_within b a \<or> range_within a b \<or> before a b \<or> before b a"
proof -
  have main: "range_within b a \<or> before a b \<or> before b a"
    if ca: "canonical a" and cb: "canonical b" and len: "length (IP a) = length (IP b)"
      and h: "hbits b \<le> hbits a" for a b
  proof -
    note da = canonicalD [OF ca] and db = canonicalD [OF cb]
    define p :: nat where "p = 2 ^ hbits a"
    define qa where "qa = lo a div p"
    define qb where "qb = lo b div p"
    have pp: "0 < p" by (simp add: p_def)
    have loa: "lo a = qa * p" using da(6) by (auto simp: qa_def p_def)
    have top: "lo b + 2 ^ hbits b \<le> (qb + 1) * p"
    proof -
      have "(lo b + 2 ^ hbits b - 1) div 2 ^ hbits b = lo b div 2 ^ hbits b"
        by (rule block_top_div [OF db(6)])
      from div_pow_le [OF this h] have "(lo b + 2 ^ hbits b - 1) div p = qb"
        by (simp add: p_def qb_def)
      then have "lo b + 2 ^ hbits b - 1 < p + qb * p"
        using dividend_less_div_times [OF pp, of "lo b + 2 ^ hbits b - 1"] by simp
      moreover have "(1::nat) \<le> 2 ^ hbits b" by simp
      ultimately show ?thesis by (simp add: algebra_simps)
    qed
    have bot: "qb * p \<le> lo b" unfolding qb_def by (rule div_times_less_eq_dividend)
    consider "qb = qa" | "qb < qa" | "qa < qb" by arith
    then show ?thesis
    proof cases
      case 1
      then have "lo a \<le> lo b \<and> lo b + 2 ^ hbits b \<le> lo a + p"
        using top bot loa by (simp add: algebra_simps)
      then have "range_within b a"
        by (simp add: range_within_val [OF cb ca len [symmetric]] p_def)
      then show ?thesis by simp
    next
      case 2
      then have "(qb + 1) * p \<le> qa * p" by (intro mult_le_mono1) simp
      with top loa have "before b a" by (simp add: before_val [OF cb len [symmetric]])
      then show ?thesis by simp
    next
      case 3
      then have "(qa + 1) * p \<le> qb * p" by (intro mult_le_mono1) simp
      with bot loa have "before a b" by (simp add: before_val [OF ca len] p_def)
      then show ?thesis by simp
    qed
  qed
  show ?thesis
  proof (cases "hbits b \<le> hbits a")
    case True
    from main [OF assms this] show ?thesis by auto
  next
    case False
    then have "hbits a \<le> hbits b" by simp
    from main [OF assms(2,1) assms(3) [symmetric] this] show ?thesis by auto
  qed
qed

subsection \<open>\<open>contains\<close> finds exactly the stored networks that contain the candidate\<close>

lemma before_trans:
  assumes "canonical b" and "before a b" and "before b c"
  shows "before a c"
proof -
  have "top a < IP b" using assms(2) by (rule before_less)
  also have "IP b \<le> top b" using assms(1) by (rule IP_le_top)
  also have "top b < IP c" using assms(3) by (rule before_less)
  finally show ?thesis using before_defined [OF assms(2)] by (rule less_before [rotated])
qed

lemma before_sub_left:
  assumes "canonical m" and "canonical m'" and "range_within m' m" and "before m k"
  shows "before m' k"
proof -
  have len: "length (IP m') = length (IP m)" using assms(3) by (rule range_within_length)
  note t = top_canonical [OF assms(1)] and t' = top_canonical [OF assms(2)]
  have "(0::nat) < 2 ^ hbits m'" by simp
  then have "val (top m') \<le> val (top m)"
    using assms(3) unfolding range_within_val [OF assms(2,1) len] t(3) t'(3) by arith
  then have "top m' \<le> top m" using t(2) t'(2) len by (simp add: list_le_val)
  also have "top m < IP k" using assms(4) by (rule before_less)
  finally show ?thesis using t'(1) by (simp add: less_before)
qed

lemma before_sub_right:
  assumes "canonical m" and "canonical m'" and "range_within m' m" and "before k m"
  shows "before k m'"
proof -
  have len: "length (IP m') = length (IP m)" using assms(3) by (rule range_within_length)
  have "top k < IP m" using assms(4) by (rule before_less)
  also have "IP m \<le> IP m'"
    using assms(3) len unfolding range_within_val [OF assms(2,1) len]
    by (simp add: list_le_val lo_def)
  finally show ?thesis using before_defined [OF assms(4)] by (rule less_before [rotated])
qed

lemma before_not_contains:
  assumes "canonical a" and "canonical b" and "before a b \<or> before b a"
  shows "\<not> ContainsNet a b"
proof
  assume c: "ContainsNet a b"
  then have len: "length (IP a) = length (IP b)"
    by (auto simp: ContainsNet_def split: if_splits)
  have r: "range_within b a" using assms(1,2) c by (rule ContainsNet_imp_range_within)
  have "(0::nat) < 2 ^ hbits a" "(0::nat) < 2 ^ hbits b" by simp_all
  then show False
    using assms(3) r
    unfolding before_val [OF assms(1) len] before_val [OF assms(2) len [symmetric]]
      range_within_val [OF assms(2,1) len [symmetric]]
    by arith
qed

lemma before_compare:
  assumes "canonical a" and "before a b"
  shows "bytes_Compare (IP a) (IP b) < 0" and "\<not> bytes_Compare (IP b) (IP a) < 0"
proof -
  have "IP a \<le> top a" using assms(1) by (rule IP_le_top)
  also have "top a < IP b" using assms(2) by (rule before_less)
  finally have "IP a < IP b" .
  then show "bytes_Compare (IP a) (IP b) < 0" "\<not> bytes_Compare (IP b) (IP a) < 0"
    by (simp_all add: bytes_Compare_less)
qed

lemma tree_contains_sound:
  "tree_contains t c \<Longrightarrow> \<exists>m\<in>set (walk t). ContainsNet m c"
  by (induction t) (auto split: if_splits)

lemma canonical_tree_Node:
  "canonical_tree (Node l k r) \<longleftrightarrow>
     canonical_tree l \<and> canonical_tree r \<and> canonical k \<and>
     (\<forall>m\<in>set (walk l). before m k) \<and> (\<forall>m\<in>set (walk r). before k m)"
  by (auto simp: canonical_tree_def list_all_iff)

lemma canonical_tree_Leaf [simp]: "canonical_tree Leaf"
  by (simp add: canonical_tree_def)

lemma canonical_tree_walk: "canonical_tree t \<Longrightarrow> m \<in> set (walk t) \<Longrightarrow> canonical m"
  by (simp add: canonical_tree_def list_all_iff)

lemma tree_contains_complete:
  assumes "canonical_tree t" "canonical c" "m \<in> set (walk t)" "ContainsNet m c"
  shows "tree_contains t c"
  using assms
proof (induction t)
  case Leaf
  then show ?case by simp
next
  case (Node l k r)
  from Node.prems(1) have tl: "canonical_tree l" and tr: "canonical_tree r" and k: "canonical k"
    and bl: "\<forall>m\<in>set (walk l). before m k" and br: "\<forall>m\<in>set (walk r). before k m"
    by (simp_all add: canonical_tree_Node)
  show ?case
  proof (cases "ContainsNet k c")
    case True
    then show ?thesis by simp
  next
    case False
    with Node.prems(3,4) have "m \<in> set (walk l) \<or> m \<in> set (walk r)" by auto
    then show ?thesis
    proof
      assume ml: "m \<in> set (walk l)"
      then have cm: "canonical m" using tl by (simp add: canonical_tree_walk)
      have w: "range_within c m"
        using cm Node.prems(2,4) by (rule ContainsNet_imp_range_within)
      from bl ml have "before m k" by simp
      with cm Node.prems(2) w have "before c k" by (rule before_sub_left)
      then have "bytes_Compare (IP c) (IP k) < 0"
        using before_compare(1) [OF Node.prems(2)] by simp
      with False Node.IH(1) [OF tl Node.prems(2) ml Node.prems(4)] show ?thesis by simp
    next
      assume mr: "m \<in> set (walk r)"
      then have cm: "canonical m" using tr by (simp add: canonical_tree_walk)
      have w: "range_within c m"
        using cm Node.prems(2,4) by (rule ContainsNet_imp_range_within)
      from br mr have "before k m" by simp
      with cm Node.prems(2) w have "before k c" by (rule before_sub_right)
      then have "\<not> bytes_Compare (IP c) (IP k) < 0"
        using before_compare(2) [OF k] by simp
      with False Node.IH(2) [OF tr Node.prems(2) mr Node.prems(4)] show ?thesis by simp
    qed
  qed
qed

subsection \<open>Single addresses\<close>

lemma IP_ipToNet [simp]: "IP (ipToNet x) = x"
  by (simp add: ipToNet_def Let_def)

lemma ipToNet_canonical:
  assumes "length x = 4 \<or> length x = 16"
  shows "canonical (ipToNet x)" and "plen (ipToNet x) = 8 * length x"
proof -
  have e: "ipToNet x = \<lparr>IP = x, Mask = cidr_fill (length x) (8 * length x)\<rparr>"
    using assms by (auto simp: ipToNet_def CIDRMask_def Let_def)
  have "canonical \<lparr>IP = x, Mask = cidr_fill (length x) (8 * length x)\<rparr>"
    "plen \<lparr>IP = x, Mask = cidr_fill (length x) (8 * length x)\<rparr> = 8 * length x"
    using canonicalI [of x "8 * length x"] assms by simp_all
  then show "canonical (ipToNet x)" "plen (ipToNet x) = 8 * length x"
    by (simp_all add: e)
qed

text \<open>Every address of an IPv4-mapped network is IPv4-mapped.\<close>

lemma mapped_in_net:
  assumes "canonical k" and "length (IP k) = 16" and "To4 (IP k) \<noteq> None" and "in_net y k"
  shows "To4 y \<noteq> None"
proof -
  have h: "hbits k \<le> 32" using assms(1,2,3) by (rule mapped_hbits)
  from assms(4) have ly: "length y = 16" and "val y div 2 ^ hbits k = lo k div 2 ^ hbits k"
    using assms(2) by (simp_all add: in_net_canonical [OF assms(1)])
  from div_pow_le [OF this(2) h] have "val y div 2 ^ 32 = lo k div 2 ^ 32" .
  moreover have "lo k div 2 ^ 32 = 65535"
    unfolding lo_def using To4_mapped_iff [OF assms(2)] assms(3) by blast
  ultimately have "val y div 2 ^ 32 = 65535" by (rule trans)
  then show ?thesis using To4_mapped_iff [OF ly] by blast
qed

lemma ContainsNet_host:
  assumes "canonical m" and "length x = length (IP m)"
  shows "ContainsNet m (ipToNet x) \<longleftrightarrow>
     in_net x m \<and> \<not> (length x = 16 \<and> To4 (IP m) = None \<and> To4 x \<noteq> None)"
proof -
  have lx: "length x = 4 \<or> length x = 16" using canonicalD(1) [OF assms(1)] assms(2) by simp
  note h = ipToNet_canonical [OF lx]
  have "plen m \<le> 8 * length x" using canonicalD(2) [OF assms(1)] assms(2) by simp
  then show ?thesis
    using assms(2)
    by (simp add: ContainsNet_canonical [OF assms(1) h(1)] h(2) in_net_canonical [OF assms(1)] lo_def)
qed

lemma ContainsNet_host_length:
  assumes "canonical m" and "ContainsNet m (ipToNet x)"
  shows "length x = length (IP m)" and "canonical (ipToNet x)" and "in_net x m"
proof -
  from assms(2) show l: "length x = length (IP m)"
    by (auto simp: ContainsNet_def split: if_splits)
  then have "length x = 4 \<or> length x = 16" using canonicalD(1) [OF assms(1)] by simp
  then show "canonical (ipToNet x)" by (rule ipToNet_canonical(1))
  from assms(2) show "in_net x m" by (simp add: ContainsNet_host [OF assms(1) l])
qed

lemma Contains_walk:
  assumes "canonical_tree (tree s)"
  shows "Contains s x \<longleftrightarrow> (\<exists>m\<in>set (walk (tree s)). ContainsNet m (ipToNet x))"
proof
  assume "Contains s x"
  then have "tree_contains (tree s) (ipToNet x)" by (simp add: Contains_def ContainsIPNet_def)
  then show "\<exists>m\<in>set (walk (tree s)). ContainsNet m (ipToNet x)" by (rule tree_contains_sound)
next
  assume "\<exists>m\<in>set (walk (tree s)). ContainsNet m (ipToNet x)"
  then obtain m where m: "m \<in> set (walk (tree s))" "ContainsNet m (ipToNet x)" by blast
  have cm: "canonical m" using assms m(1) by (rule canonical_tree_walk)
  have "canonical (ipToNet x)" using cm m(2) by (rule ContainsNet_host_length(2))
  from tree_contains_complete [OF assms this m]
  show "Contains s x" by (simp add: Contains_def ContainsIPNet_def)
qed

subsection \<open>Joining subtrees and inserting a separate network\<close>

lemma walk_join [simp]: "walk (join l r) = walk l @ walk r"
  by (induction l) simp_all

lemma canonical_tree_join:
  assumes "canonical_tree l" "canonical_tree r" "\<forall>a\<in>set (walk l). \<forall>b\<in>set (walk r). before a b"
  shows "canonical_tree (join l r)"
  using assms
proof (induction l)
  case Leaf
  then show ?case by simp
next
  case (Node a x b)
  from Node.prems(1) have ta: "canonical_tree a" and tb: "canonical_tree b" and x: "canonical x"
    and ba: "\<forall>m\<in>set (walk a). before m x" and bb: "\<forall>m\<in>set (walk b). before x m"
    by (simp_all add: canonical_tree_Node)
  have "canonical_tree (join b r)"
    using Node.IH(2) [OF tb Node.prems(2)] Node.prems(3) by simp
  moreover have "\<forall>m\<in>set (walk (join b r)). before x m"
  proof
    fix m assume "m \<in> set (walk (join b r))"
    then have "m \<in> set (walk b) \<or> m \<in> set (walk r)" by simp
    then show "before x m"
    proof
      assume "m \<in> set (walk b)" with bb show ?thesis by simp
    next
      assume "m \<in> set (walk r)"
      with Node.prems(3) show ?thesis by simp
    qed
  qed
  ultimately show ?case using ta x ba by (simp add: canonical_tree_Node)
qed

text \<open>Two networks one of which lies entirely before the other.\<close>

definition sep :: "IPNet \<Rightarrow> IPNet \<Rightarrow> bool" where
  "sep a b \<longleftrightarrow> before a b \<or> before b a"

lemma sep_sym: "sep a b \<Longrightarrow> sep b a"
  by (auto simp: sep_def)

lemma disjoint_sep:
  assumes "canonical a" "canonical b" "length (IP a) = length (IP b)"
    and "\<forall>x. \<not> (in_net x a \<and> in_net x b)"
  shows "sep a b"
proof -
  have "\<not> range_within b a"
    using range_within_in_net [OF assms(2,1) _ lo_in_net [OF assms(2)]] lo_in_net [OF assms(2)]
      assms(4) by blast
  moreover have "\<not> range_within a b"
    using range_within_in_net [OF assms(1,2) _ lo_in_net [OF assms(1)]] lo_in_net [OF assms(1)]
      assms(4) by blast
  ultimately show ?thesis using laminar [OF assms(1,2,3)] by (simp add: sep_def)
qed

lemma sep_disjoint:
  assumes "canonical a" "canonical b" "sep a b"
  shows "\<not> (in_net x a \<and> in_net x b)"
proof (cases "length (IP a) = length (IP b)")
  case True
  have "(0::nat) < 2 ^ hbits a" "(0::nat) < 2 ^ hbits b" by simp_all
  then show ?thesis
    using assms(3)
    unfolding sep_def before_val [OF assms(1) True] before_val [OF assms(2) True [symmetric]]
      in_net_val [OF assms(1)] in_net_val [OF assms(2)]
    by arith
next
  case False
  then show ?thesis by (auto simp: in_net_val [OF assms(1)] in_net_val [OF assms(2)])
qed

lemma tree_insert_separate:
  assumes "canonical_tree t" "canonical p" "\<forall>m\<in>set (walk t). sep p m"
  shows "canonical_tree (fst (tree_insert t p)) \<and>
         set (walk (fst (tree_insert t p))) = insert p (set (walk t))"
  using assms
proof (induction t)
  case Leaf
  then show ?case by (simp add: canonical_tree_Node)
next
  case (Node l k r)
  from Node.prems(1) have tl: "canonical_tree l" and tr: "canonical_tree r" and k: "canonical k"
    and bl: "\<forall>m\<in>set (walk l). before m k" and br: "\<forall>m\<in>set (walk r). before k m"
    by (simp_all add: canonical_tree_Node)
  from Node.prems(3) have spk: "sep p k" by simp
  have nc: "\<not> ContainsNet k p" "\<not> ContainsNet p k"
    using before_not_contains [OF k Node.prems(2)] before_not_contains [OF Node.prems(2) k] spk
    by (auto simp: sep_def)
  show ?case
  proof (cases "bytes_Compare (IP p) (IP k) < 0")
    case True
    then have pk: "before p k"
      using spk before_compare(2) [OF k] by (auto simp: sep_def)
    from Node.IH(1) [OF tl Node.prems(2)] Node.prems(3)
    have ih: "canonical_tree (fst (tree_insert l p))"
      "set (walk (fst (tree_insert l p))) = insert p (set (walk l))" by simp_all
    have "fst (tree_insert (Node l k r) p) = Node (fst (tree_insert l p)) k r"
      using nc True by (simp split: prod.splits)
    then show ?thesis using ih tr k bl br pk by (auto simp: canonical_tree_Node)
  next
    case False
    then have kp: "before k p"
      using spk before_compare(1) [OF Node.prems(2)] by (auto simp: sep_def)
    from Node.IH(2) [OF tr Node.prems(2)] Node.prems(3)
    have ih: "canonical_tree (fst (tree_insert r p))"
      "set (walk (fst (tree_insert r p))) = insert p (set (walk r))" by simp_all
    have "fst (tree_insert (Node l k r) p) = Node l k (fst (tree_insert r p))"
      using nc False by (simp split: prod.splits)
    then show ?thesis using ih tl k bl br kp by (auto simp: canonical_tree_Node)
  qed
qed

lemma fold_insert_separate:
  assumes "canonical_tree t" "\<forall>p\<in>set ps. canonical p \<and> (\<forall>m\<in>set (walk t). sep p m)"
    "sorted_wrt sep ps"
  shows "canonical_tree (fold (\<lambda>p t. fst (tree_insert t p)) ps t) \<and>
         set (walk (fold (\<lambda>p t. fst (tree_insert t p)) ps t)) = set (walk t) \<union> set ps"
  using assms
proof (induction ps arbitrary: t)
  case Nil
  then show ?case by simp
next
  case (Cons p ps)
  from Cons.prems(2) have p: "canonical p" "\<forall>m\<in>set (walk t). sep p m" by simp_all
  from tree_insert_separate [OF Cons.prems(1) p]
  have t1: "canonical_tree (fst (tree_insert t p))"
    "set (walk (fst (tree_insert t p))) = insert p (set (walk t))" by simp_all
  have "\<forall>q\<in>set ps. canonical q \<and> (\<forall>m\<in>set (walk (fst (tree_insert t p))). sep q m)"
    using Cons.prems(2,3) by (auto simp: t1(2) intro: sep_sym)
  moreover have "sorted_wrt sep ps" using Cons.prems(3) by simp
  ultimately show ?case using Cons.IH [OF t1(1)] by (auto simp: t1(2))
qed

subsection \<open>\<open>removeNet\<close> takes the addresses of the network away\<close>

lemma subset_range_within:
  assumes "canonical k" "canonical p" "length (IP p) = length (IP k)"
    and "\<forall>x. in_net x p \<longrightarrow> in_net x k"
  shows "range_within p k"
proof -
  note t = top_canonical [OF assms(2)]
  have pos: "(0::nat) < 2 ^ hbits p" by simp
  have "lo p \<le> val (top p) \<and> val (top p) < lo p + 2 ^ hbits p"
    unfolding t(3) using pos by arith
  then have "in_net (top p) p"
    unfolding in_net_val [OF assms(2)] using t(2) by simp
  with assms(4) have "in_net (top p) k" by simp
  then have top: "lo p + 2 ^ hbits p - 1 < lo k + 2 ^ hbits k"
    by (simp add: in_net_val [OF assms(1)] t(3))
  have "in_net (IP p) k" using lo_in_net [OF assms(2)] assms(4) by simp
  then have "lo k \<le> lo p" by (simp add: in_net_val [OF assms(1)] lo_def)
  with top pos show ?thesis
    unfolding range_within_val [OF assms(2,1,3)] by arith
qed

text \<open>What \<open>removeNet\<close> puts in the place of a stored network \<open>k\<close> that \<open>n\<close> does not
  contain: networks within \<open>k\<close>, none of which contains an address of \<open>n\<close>, and which
  together still contain whatever address outside \<open>n\<close> the network \<open>k\<close> contained. The
  network \<open>n\<close> is one that \<open>ContainsNet\<close> finds to contain \<open>k\<close> whenever the range of \<open>k\<close> lies
  within its range.\<close>

lemma Difference_node:
  assumes k: "canonical k" and n: "canonical n" and nk: "\<not> ContainsNet n k"
    and H: "range_within k n \<longrightarrow> ContainsNet n k"
  shows "\<exists>ds. Difference k n = Some ds \<and>
           (\<forall>p\<in>set ds. canonical p \<and> range_within p k) \<and>
           sorted_wrt sep ds \<and>
           (\<forall>x. in_net x n \<longrightarrow> (\<forall>p\<in>set ds. \<not> ContainsNet p (ipToNet x))) \<and>
           (\<forall>x. \<not> in_net x n \<and> ContainsNet k (ipToNet x) \<longrightarrow>
                 (\<exists>p\<in>set ds. ContainsNet p (ipToNet x)))"
proof (cases "ContainsNet k n")
  case True
  then have len: "length (IP k) = length (IP n)"
    by (auto simp: ContainsNet_def split: if_splits)
  from Difference_contained [OF k n True] obtain ds where
    d: "Difference k n = Some ds" and ok: "diff_ok k n ds" by blast
  have cp: "canonical p" "length (IP p) = length (IP k)" if "p \<in> set ds" for p
    using ok that by (auto simp: diff_ok_def)
  have cov: "(\<exists>p\<in>set ds. in_net x p) \<longleftrightarrow> in_net x k \<and> \<not> in_net x n" for x
    using ok by (simp add: diff_ok_def)
  have sub: "range_within p k" if "p \<in> set ds" for p
    using subset_range_within [OF k cp [OF that]] cov that by blast
  have "sorted_wrt (\<lambda>p q. \<forall>x. \<not> (in_net x p \<and> in_net x q)) ds"
    using ok by (simp add: diff_ok_def)
  then have srt: "sorted_wrt sep ds"
    by (rule sorted_wrt_mono_rel [rotated]) (simp add: disjoint_sep cp)
  have 1: "\<not> ContainsNet p (ipToNet x)" if "in_net x n" "p \<in> set ds" for x p
  proof
    assume "ContainsNet p (ipToNet x)"
    then have "in_net x p" using cp(1) [OF that(2)] by (simp add: ContainsNet_host_length(3))
    with cov [of x] that show False by blast
  qed
  have 2: "\<exists>p\<in>set ds. ContainsNet p (ipToNet x)"
    if "\<not> in_net x n \<and> ContainsNet k (ipToNet x)" for x
  proof -
    from that have c: "ContainsNet k (ipToNet x)" by simp
    note h = ContainsNet_host_length [OF k c]
    from c have nq: "\<not> (length x = 16 \<and> To4 (IP k) = None \<and> To4 x \<noteq> None)"
      by (simp add: ContainsNet_host [OF k h(1)])
    from that h(3) cov [of x] obtain p where p: "p \<in> set ds" "in_net x p" by blast
    have lp: "length x = length (IP p)" using cp(2) [OF p(1)] h(1) by simp
    have "\<not> (length x = 16 \<and> To4 (IP p) = None \<and> To4 x \<noteq> None)"
    proof
      assume a: "length x = 16 \<and> To4 (IP p) = None \<and> To4 x \<noteq> None"
      with nq have mk: "To4 (IP k) \<noteq> None" by simp
      have "in_net (IP p) k"
        using range_within_in_net [OF cp(1) [OF p(1)] k sub [OF p(1)]] lo_in_net [OF cp(1) [OF p(1)]]
        by simp
      from mapped_in_net [OF k _ mk this] a h(1) show False by simp
    qed
    with p(2) have "ContainsNet p (ipToNet x)"
      by (simp add: ContainsNet_host [OF cp(1) [OF p(1)] lp])
    with p(1) show ?thesis by blast
  qed
  from d cp(1) sub srt 1 2 show ?thesis by blast
next
  case False
  have d: "Difference k n = Some [k]"
    using False nk by (subst Difference.simps) simp
  have 1: "\<not> ContainsNet k (ipToNet x)" if x: "in_net x n" for x
  proof
    assume c: "ContainsNet k (ipToNet x)"
    note h = ContainsNet_host_length [OF k c]
    from x have lx: "length x = length (IP n)" by (simp add: in_net_val [OF n])
    with h(1) have len: "length (IP k) = length (IP n)" by simp
    from sep_disjoint [OF k n, of x] x h(3) have ns: "\<not> sep k n" by blast
    from nk H have "\<not> range_within k n" by blast
    with laminar [OF k n len] ns have w: "range_within n k" by (auto simp: sep_def)
    with False have "\<not> (ContainsNet k n \<longleftrightarrow> range_within n k)" by simp
    with ContainsNet_range_within [OF k n len]
    have q: "length (IP k) = 16 \<and> To4 (IP k) = None \<and> To4 (IP n) \<noteq> None" by blast
    with len have l16: "length (IP n) = 16" by simp
    from q have "To4 (IP n) \<noteq> None" by simp
    from mapped_in_net [OF n l16 this x] have "To4 x \<noteq> None" .
    with c q h(1) show False by (simp add: ContainsNet_host [OF k h(1)])
  qed
  have "range_within k k" using k by (rule range_within_refl)
  with d k 1 show ?thesis by auto
qed

lemma removeNet_spec:
  assumes t: "canonical_tree t" and n: "canonical n"
    and H: "\<forall>m\<in>set (walk t). range_within m n \<longrightarrow> ContainsNet n m"
  shows "\<exists>t'. removeNet t n = Some t' \<and> canonical_tree t' \<and>
           (\<forall>m'\<in>set (walk t'). \<exists>m\<in>set (walk t). range_within m' m) \<and>
           (\<forall>x. in_net x n \<longrightarrow> (\<forall>m'\<in>set (walk t'). \<not> ContainsNet m' (ipToNet x))) \<and>
           (\<forall>x. \<not> in_net x n \<and> (\<exists>m\<in>set (walk t). ContainsNet m (ipToNet x)) \<longrightarrow>
                 (\<exists>m'\<in>set (walk t'). ContainsNet m' (ipToNet x)))"
  using t H
proof (induction t)
  case Leaf
  show ?case by simp
next
  case (Node l k r)
  from Node.prems(1) have tl: "canonical_tree l" and tr: "canonical_tree r" and k: "canonical k"
    and bl: "\<forall>m\<in>set (walk l). before m k" and br: "\<forall>m\<in>set (walk r). before k m"
    by (simp_all add: canonical_tree_Node)
  from Node.prems(2) have Hl: "\<forall>m\<in>set (walk l). range_within m n \<longrightarrow> ContainsNet n m"
    and Hr: "\<forall>m\<in>set (walk r). range_within m n \<longrightarrow> ContainsNet n m"
    and Hk: "range_within k n \<longrightarrow> ContainsNet n k" by simp_all
  from Node.IH(1) [OF tl Hl] obtain l' where
    rl: "removeNet l n = Some l'" and tl': "canonical_tree l'"
    and wl: "\<forall>m'\<in>set (walk l'). \<exists>m\<in>set (walk l). range_within m' m"
    and l1: "\<And>x m'. in_net x n \<Longrightarrow> m' \<in> set (walk l') \<Longrightarrow> \<not> ContainsNet m' (ipToNet x)"
    and l2: "\<And>x. \<not> in_net x n \<Longrightarrow> \<exists>m\<in>set (walk l). ContainsNet m (ipToNet x) \<Longrightarrow>
                 \<exists>m'\<in>set (walk l'). ContainsNet m' (ipToNet x)"
    by blast
  from Node.IH(2) [OF tr Hr] obtain r' where
    rr: "removeNet r n = Some r'" and tr': "canonical_tree r'"
    and wr: "\<forall>m'\<in>set (walk r'). \<exists>m\<in>set (walk r). range_within m' m"
    and r1: "\<And>x m'. in_net x n \<Longrightarrow> m' \<in> set (walk r') \<Longrightarrow> \<not> ContainsNet m' (ipToNet x)"
    and r2: "\<And>x. \<not> in_net x n \<Longrightarrow> \<exists>m\<in>set (walk r). ContainsNet m (ipToNet x) \<Longrightarrow>
                 \<exists>m'\<in>set (walk r'). ContainsNet m' (ipToNet x)"
    by blast
  have bl': "before m' k" if "m' \<in> set (walk l')" for m'
  proof -
    from wl that obtain m where m: "m \<in> set (walk l)" "range_within m' m" by blast
    from before_sub_left [OF canonical_tree_walk [OF tl m(1)] canonical_tree_walk [OF tl' that] m(2)]
      bl m(1)
    show ?thesis by simp
  qed
  have br': "before k m'" if "m' \<in> set (walk r')" for m'
  proof -
    from wr that obtain m where m: "m \<in> set (walk r)" "range_within m' m" by blast
    from before_sub_right [OF canonical_tree_walk [OF tr m(1)] canonical_tree_walk [OF tr' that] m(2)]
      br m(1)
    show ?thesis by simp
  qed
  have lr: "\<forall>a\<in>set (walk l'). \<forall>b\<in>set (walk r'). before a b"
    using before_trans [OF k] bl' br' by blast
  have joined: "canonical_tree (join l' r')" using tl' tr' lr by (rule canonical_tree_join)
  have within_join: "\<forall>m'\<in>set (walk (join l' r')). \<exists>m\<in>set (walk (Node l k r)). range_within m' m"
    using wl wr by auto
  have j1: "\<forall>x. in_net x n \<longrightarrow> (\<forall>m'\<in>set (walk (join l' r')). \<not> ContainsNet m' (ipToNet x))"
    using l1 r1 by auto
  show ?case
  proof (cases "ContainsNet n k")
    case True
    have res: "removeNet (Node l k r) n = Some (join l' r')"
      by (simp add: rl rr True)
    have "\<exists>m'\<in>set (walk (join l' r')). ContainsNet m' (ipToNet x)"
      if x: "\<not> in_net x n \<and> (\<exists>m\<in>set (walk (Node l k r)). ContainsNet m (ipToNet x))" for x
    proof -
      have "\<not> ContainsNet k (ipToNet x)"
      proof
        assume c: "ContainsNet k (ipToNet x)"
        have "in_net x k" using k c by (rule ContainsNet_host_length(3))
        with ContainsNet_sound [OF n k True] x show False by blast
      qed
      with x have "(\<exists>m\<in>set (walk l). ContainsNet m (ipToNet x)) \<or>
          (\<exists>m\<in>set (walk r). ContainsNet m (ipToNet x))" by auto
      with l2 [of x] r2 [of x] x show ?thesis by auto
    qed
    with res joined within_join j1 show ?thesis by blast
  next
    case False
    from Difference_node [OF k n False Hk] obtain ds where
      d: "Difference k n = Some ds"
      and dp: "\<forall>p\<in>set ds. canonical p \<and> range_within p k"
      and ds: "sorted_wrt sep ds"
      and d1: "\<And>x p. in_net x n \<Longrightarrow> p \<in> set ds \<Longrightarrow> \<not> ContainsNet p (ipToNet x)"
      and d2: "\<And>x. \<not> in_net x n \<and> ContainsNet k (ipToNet x) \<Longrightarrow>
                 \<exists>p\<in>set ds. ContainsNet p (ipToNet x)"
      by blast
    show ?thesis
    proof (cases ds)
      case Nil
      have res: "removeNet (Node l k r) n = Some (join l' r')"
        by (simp add: rl rr False d Nil)
      have "\<exists>m'\<in>set (walk (join l' r')). ContainsNet m' (ipToNet x)"
        if x: "\<not> in_net x n \<and> (\<exists>m\<in>set (walk (Node l k r)). ContainsNet m (ipToNet x))" for x
      proof -
        have "\<not> ContainsNet k (ipToNet x)" using d2 [of x] x Nil by auto
        with x have "(\<exists>m\<in>set (walk l). ContainsNet m (ipToNet x)) \<or>
            (\<exists>m\<in>set (walk r). ContainsNet m (ipToNet x))" by auto
        with l2 [of x] r2 [of x] x show ?thesis by auto
      qed
      with res joined within_join j1 show ?thesis by blast
    next
      case (Cons p ps)
      define t0 where "t0 = Node l' p r'"
      define t1 where "t1 = fold (\<lambda>p t. fst (tree_insert t p)) ps t0"
      have res: "removeNet (Node l k r) n = Some t1"
        by (simp add: rl rr False d Cons t1_def t0_def)
      have p4: "canonical q" "range_within q k" if "q \<in> set ds" for q
        using dp that by simp_all
      have lq: "before m' q" if "m' \<in> set (walk l')" "q \<in> set ds" for m' q
        using before_sub_right [OF k p4 [OF that(2)]] bl' [OF that(1)] by simp
      have qr: "before q m'" if "m' \<in> set (walk r')" "q \<in> set ds" for m' q
        using before_sub_left [OF k p4 [OF that(2)]] br' [OF that(1)] by simp
      have t0: "canonical_tree t0"
        using tl' tr' p4(1) [of p] lq [of _ p] qr [of _ p]
        by (simp add: t0_def canonical_tree_Node Cons)
      have w0: "set (walk t0) = set (walk l') \<union> {p} \<union> set (walk r')"
        by (auto simp: t0_def)
      have "\<forall>q\<in>set ps. canonical q \<and> (\<forall>m\<in>set (walk t0). sep q m)"
      proof
        fix q assume q: "q \<in> set ps"
        then have qd: "q \<in> set ds" by (simp add: Cons)
        have "sep p q" using ds q by (simp add: Cons)
        then have "sep q p" by (rule sep_sym)
        moreover have "sep q m" if "m \<in> set (walk l')" for m
          using lq [OF that qd] by (simp add: sep_def)
        moreover have "sep q m" if "m \<in> set (walk r')" for m
          using qr [OF that qd] by (simp add: sep_def)
        ultimately show "canonical q \<and> (\<forall>m\<in>set (walk t0). sep q m)"
          using p4(1) [OF qd] by (auto simp: w0)
      qed
      moreover have "sorted_wrt sep ps" using ds by (simp add: Cons)
      ultimately have t1: "canonical_tree t1" "set (walk t1) = set (walk t0) \<union> set ps"
        using fold_insert_separate [OF t0, of ps] by (simp_all add: t1_def)
      have w1: "set (walk t1) = set (walk l') \<union> set (walk r') \<union> set ds"
        by (auto simp: t1(2) w0 Cons)
      have within: "\<forall>m'\<in>set (walk t1). \<exists>m\<in>set (walk (Node l k r)). range_within m' m"
        using wl wr p4(2) by (auto simp: w1)
      have c1: "\<forall>x. in_net x n \<longrightarrow> (\<forall>m'\<in>set (walk t1). \<not> ContainsNet m' (ipToNet x))"
        using l1 r1 d1 by (auto simp: w1)
      have "\<exists>m'\<in>set (walk t1). ContainsNet m' (ipToNet x)"
        if x: "\<not> in_net x n \<and> (\<exists>m\<in>set (walk (Node l k r)). ContainsNet m (ipToNet x))" for x
      proof -
        from x have "(\<exists>m\<in>set (walk l). ContainsNet m (ipToNet x)) \<or> ContainsNet k (ipToNet x) \<or>
            (\<exists>m\<in>set (walk r). ContainsNet m (ipToNet x))" by auto
        with l2 [of x] r2 [of x] d2 [of x] x show ?thesis by (auto simp: w1)
      qed
      with res t1(1) within c1 show ?thesis by blast
    qed
  qed
qed

subsection \<open>\<open>GetIPs\<close> on a search tree\<close>

lemma walk_sorted: "canonical_tree t \<Longrightarrow> sorted_wrt before (walk t)"
proof (induction t)
  case Leaf
  show ?case by simp
next
  case (Node l k r)
  from Node.prems have tl: "canonical_tree l" and tr: "canonical_tree r" and k: "canonical k"
    and bl: "\<forall>m\<in>set (walk l). before m k" and br: "\<forall>m\<in>set (walk r). before k m"
    by (simp_all add: canonical_tree_Node)
  have "\<forall>a\<in>set (walk l). \<forall>b\<in>set (walk r). before a b"
    using before_trans [OF k] bl br by blast
  with Node.IH(1) [OF tl] Node.IH(2) [OF tr] bl br show ?case
    by (auto simp: sorted_wrt_append)
qed

lemma Expand_capped_spec:
  assumes "canonical n"
  shows "length (Expand_capped n) = min (2 ^ 30) (Size n)"
    and "\<forall>i<length (Expand_capped n).
           length (Expand_capped n ! i) = length (IP n) \<and> val (Expand_capped n ! i) = lo n + i"
proof -
  from Expand_canonical [OF assms, of "2 ^ 30"] obtain F where
    F: "Expand n (2 ^ 30) = Some F" "length F = min (nat (2 ^ 30)) (min (2 ^ 30) (Size n))"
    "\<forall>i<length F. length (F ! i) = length (IP n) \<and> val (F ! i) = lo n + i" by auto
  have e: "Expand_capped n = F" by (simp only: Expand_capped_def F(1) option.case)
  show "length (Expand_capped n) = min (2 ^ 30) (Size n)" using F(2) by (simp add: e)
  show "\<forall>i<length (Expand_capped n).
           length (Expand_capped n ! i) = length (IP n) \<and> val (Expand_capped n ! i) = lo n + i"
    using F(3) by (simp add: e)
qed

lemma Expand_capped_sorted:
  assumes "canonical n"
  shows "sorted_wrt (<) (Expand_capped n)"
proof -
  note s = Expand_capped_spec(2) [OF assms]
  have "Expand_capped n ! i < Expand_capped n ! j" if "i < j" "j < length (Expand_capped n)" for i j
  proof -
    from that s have "length (Expand_capped n ! i) = length (Expand_capped n ! j)"
      "val (Expand_capped n ! i) < val (Expand_capped n ! j)" by simp_all
    then show ?thesis by (simp add: list_less_val)
  qed
  then show ?thesis by (simp add: sorted_wrt_iff_nth_less)
qed

lemma Expand_capped_in:
  assumes "canonical n" and "x \<in> set (Expand_capped n)"
  shows "IP n \<le> x" and "x \<le> top n"
proof -
  from assms(2) obtain i where i: "i < length (Expand_capped n)" "x = Expand_capped n ! i"
    by (auto simp: in_set_conv_nth)
  with Expand_capped_spec(2) [OF assms(1)]
  have lx: "length x = length (IP n)" and vx: "val x = lo n + i" by simp_all
  from i(1) have "i < 2 ^ hbits n"
    by (simp add: Expand_capped_spec(1) [OF assms(1)] Size_canonical [OF assms(1)])
  then have "val x \<le> lo n + 2 ^ hbits n - 1" using vx by arith
  then show "x \<le> top n"
    using lx top_canonical(2,3) [OF assms(1)] by (simp add: list_le_val)
  show "IP n \<le> x" using lx vx by (simp add: list_le_val lo_def)
qed

lemma concat_sorted:
  assumes "sorted_wrt before ns" and "\<forall>n\<in>set ns. canonical n"
  shows "sorted_wrt (<) (concat (map Expand_capped ns))"
  using assms
proof (induction ns)
  case Nil
  show ?case by simp
next
  case (Cons n ns)
  from Cons.prems have cn: "canonical n" and b: "\<forall>m\<in>set ns. before n m" by simp_all
  have "x < y" if "x \<in> set (Expand_capped n)" "m \<in> set ns" "y \<in> set (Expand_capped m)" for x y m
  proof -
    have cm: "canonical m" using Cons.prems(2) that(2) by simp
    have "x \<le> top n" using cn that(1) by (rule Expand_capped_in(2))
    also have "top n < IP m" using b that(2) by (simp add: before_less)
    also have "IP m \<le> y" using cm that(3) by (rule Expand_capped_in(1))
    finally show ?thesis .
  qed
  then have "\<forall>x\<in>set (Expand_capped n). \<forall>y\<in>set (concat (map Expand_capped ns)). x < y"
    by auto
  moreover have "sorted_wrt (<) (concat (map Expand_capped ns))"
    using Cons.IH Cons.prems by simp
  ultimately show ?case using Expand_capped_sorted [OF cn] by (simp add: sorted_wrt_append)
qed

text \<open>On a set whose stored networks are canonical and satisfy the search invariant,
  \<open>GetIPs\<close> returns addresses in strictly ascending order.\<close>

lemma GetIPs_ascending:
  assumes "canonical_tree (tree s)" and "0 \<le> lim"
  shows "\<exists>ips. GetIPs s lim = Some ips \<and> sorted_wrt (\<lambda>a b. bytes_Compare a b < 0) ips"
proof -
  have c: "\<forall>m\<in>set (walk (tree s)). canonical m"
    using assms(1) by (simp add: canonical_tree_def list_all_iff)
  define l' where "l' = (if lim = 0 then MaxInt else lim)"
  have "0 \<le> l'" using assms(2) by (simp add: l'_def MaxInt_def)
  from getips_loop_spec [OF c this, of "[]"]
  have g: "GetIPs s lim = Some (take (nat l') (concat (map Expand_capped (walk (tree s)))))"
    by (simp add: GetIPs_def l'_def)
  have "sorted_wrt (<) (concat (map Expand_capped (walk (tree s))))"
    using walk_sorted [OF assms(1)] c by (rule concat_sorted)
  then have "sorted_wrt (<) (take (nat l') (concat (map Expand_capped (walk (tree s)))))"
    by (rule sorted_wrt_take)
  then have "sorted_wrt (\<lambda>a b. bytes_Compare a b < 0)
      (take (nat l') (concat (map Expand_capped (walk (tree s)))))"
    by (simp add: bytes_Compare_less)
  with g show ?thesis by blast
qed

section \<open>Inserting into a search tree of networks of one kind\<close>

text \<open>Two networks are of the same kind when they have the same width and are both
  IPv4-mapped or both not. Between canonical networks of the same kind \<open>ContainsNet\<close> is
  the containment of ranges.\<close>

definition same_kind :: "IPNet \<Rightarrow> IPNet \<Rightarrow> bool" where
  "same_kind a b \<longleftrightarrow>
     length (IP a) = length (IP b) \<and> (To4 (IP a) = None \<longleftrightarrow> To4 (IP b) = None)"

lemma same_kind_refl [simp]: "same_kind a a"
  by (simp add: same_kind_def)

lemma same_kind_sym: "same_kind a b \<Longrightarrow> same_kind b a"
  by (auto simp: same_kind_def)

lemma same_kind_trans: "same_kind a b \<Longrightarrow> same_kind b c \<Longrightarrow> same_kind a c"
  by (auto simp: same_kind_def)

lemma ContainsNet_kind:
  assumes "canonical a" and "canonical b" and "same_kind a b"
  shows "ContainsNet a b \<longleftrightarrow> range_within b a"
  using assms(3) by (intro ContainsNet_range_within [OF assms(1,2)]) (auto simp: same_kind_def)

subsection \<open>Combining two neighbours\<close>

lemma halves_arith:
  fixes la lb :: nat
  assumes "la mod 2 ^ h = 0" and "lb mod 2 ^ h = 0" and "la + 2 ^ h \<le> lb"
    and "lb div 2 ^ Suc h = la div 2 ^ Suc h"
  shows "la mod 2 ^ Suc h = 0" and "lb = la + 2 ^ h"
proof -
  define P :: nat where "P = 2 ^ h"
  have pp: "0 < P" by (simp add: P_def)
  from assms(1) obtain ka where ka: "la = P * ka" by (auto simp: P_def mod_eq_0_iff_dvd)
  from assms(2) obtain kb where kb: "lb = P * kb" by (auto simp: P_def mod_eq_0_iff_dvd)
  have d: "(P * k) div (2 * P) = k div 2" for k
    using pp by (simp add: mult.commute [of 2 P])
  from assms(4) have "kb div 2 = ka div 2"
    by (simp add: ka kb d flip: P_def)
  moreover have "ka + 1 \<le> kb"
  proof -
    have "P * (ka + 1) \<le> P * kb" using assms(3) by (simp add: ka kb flip: P_def)
    then show ?thesis using pp unfolding mult_le_cancel1 by blast
  qed
  ultimately have e: "kb = ka + 1" "ka mod 2 = 0" by presburger+
  from e(2) obtain j where "ka = 2 * j" by (auto simp: mod_eq_0_iff_dvd)
  then have "la = 2 ^ Suc h * j" by (simp add: ka P_def)
  then show "la mod 2 ^ Suc h = 0" by simp
  show "lb = la + 2 ^ h" by (simp add: ka kb e(1) P_def)
qed

lemma combine_spec:
  assumes ca: "canonical a" and cb: "canonical b" and sk: "same_kind a b"
    and ab: "before a b" and cm: "combine a b = Some m"
  shows "canonical m" and "IP m = IP a" and "hbits m = Suc (hbits a)"
    and "hbits b = hbits a" and "lo b = lo a + 2 ^ hbits a"
proof -
  note da = canonicalD [OF ca] and db = canonicalD [OF cb]
  define L where "L = length (IP a)"
  have len: "length (IP a) = length (IP b)" using sk by (simp add: same_kind_def)
  obtain ones bits where sz: "Mask_Size (Mask a) = (ones, bits)" by (cases "Mask_Size (Mask a)")
  have ob: "ones = int (plen a)" "bits = 8 * int L" using da(7) sz by (simp_all add: L_def)
  define k where "k = (case CIDRMask (ones - 1) bits of None \<Rightarrow> [] | Some k \<Rightarrow> k)"
  from cm have cc: "CanCombineWith a b = (True, Some m)"
    by (auto simp: combine_def split: prod.splits bool.splits option.splits)
  then have ne: "\<not> ip_Equal (IP a) (IP b)" and cmp: "bytes_Compare (Mask a) (Mask b) = 0"
    and m: "m = \<lparr>IP = IP a, Mask = k\<rparr>" and cn: "ContainsNet m b"
    using sz by (auto simp: CanCombineWith_def Let_def k_def split: if_splits)
  have mb: "Mask b = Mask a" using bytes_Compare_eq [OF cmp] by simp
  then have pb: "plen b = plen a" by (simp add: plen_def)
  then show hb: "hbits b = hbits a" using len by (simp add: hbits_def)
  have ic: "IPNet_Contains m (IP b)"
    using cn by (auto simp: ContainsNet_def split: if_splits)
  have "CIDRMask (ones - 1) bits \<noteq> None"
  proof
    assume "CIDRMask (ones - 1) bits = None"
    then have "Mask m = []" by (simp add: m k_def)
    from IPNet_Contains_nil_mask [OF ic this] da(1) len show False by auto
  qed
  then obtain k' where k': "CIDRMask (ones - 1) bits = Some k'" by auto
  then have p1: "1 \<le> plen a" and kk: "k = cidr_fill L (plen a - 1)"
    using da(1) by (auto simp: CIDRMask_def ob k_def L_def nat_diff_distrib split: if_splits)
  have bv: "lo a + 2 ^ hbits a \<le> lo b" using ab by (simp add: before_val [OF ca len])
  have mp: "length (IP m) = 16 \<and> To4 (IP m) \<noteq> None \<longrightarrow> 96 \<le> plen a - 1"
  proof
    assume a: "length (IP m) = 16 \<and> To4 (IP m) \<noteq> None"
    then have l16: "length (IP a) = 16" and ma: "To4 (IP a) \<noteq> None" by (simp_all add: m)
    from sk ma l16 have l16b: "length (IP b) = 16" and mapb: "To4 (IP b) \<noteq> None"
      by (simp_all add: same_kind_def)
    have h32: "hbits a \<le> 32" using ca l16 ma by (rule mapped_hbits)
    have "hbits a \<noteq> 32"
    proof
      assume h: "hbits a = 32"
      have "lo a div 2 ^ 32 = 65535" "lo b div 2 ^ 32 = 65535"
        unfolding lo_def using To4_mapped_iff [OF l16] To4_mapped_iff [OF l16b] ma mapb by blast+
      moreover have "lo a mod 2 ^ 32 = 0" "lo b mod 2 ^ 32 = 0"
        using da(6) db(6) h hb by simp_all
      ultimately have "lo a = lo b"
        by (metis div_mult_mod_eq)
      with bv show False by simp
    qed
    with h32 have "hbits a < 32" by simp
    then show "96 \<le> plen a - 1" using da(2) l16 by (simp add: hbits_def)
  qed
  have km: "plen a - 1 \<le> 8 * length (IP m)" using da(2) by (simp add: m)
  have mm: "Mask m = cidr_fill (length (IP m)) (plen a - 1)" by (simp add: m kk L_def)
  have lm: "length (IP m) = 4 \<or> length (IP m) = 16" using da(1) by (simp add: m)
  have "8 * length (IP m) - (plen a - 1) = Suc (hbits a)"
    using p1 da(2) by (simp add: m hbits_def)
  with IPNet_Contains_masked [OF lm km mm mp, of "IP b"] ic len
  have dv: "lo b div 2 ^ Suc (hbits a) = lo a div 2 ^ Suc (hbits a)"
    by (simp add: m lo_def)
  from halves_arith [OF da(6) db(6) [unfolded hb] bv dv]
  have z: "lo a mod 2 ^ Suc (hbits a) = 0" and lb: "lo b = lo a + 2 ^ hbits a" by simp_all
  show "lo b = lo a + 2 ^ hbits a" by (rule lb)
  have e: "8 * length (IP a) - (plen a - 1) = Suc (hbits a)"
    using p1 da(2) by (simp add: hbits_def)
  have "plen a - 1 \<le> 8 * length (IP a)" using da(2) by simp
  from canonicalI [OF da(1) this, unfolded e] z
  have c: "canonical \<lparr>IP = IP a, Mask = cidr_fill (length (IP a)) (plen a - 1)\<rparr>"
    and pl: "plen \<lparr>IP = IP a, Mask = cidr_fill (length (IP a)) (plen a - 1)\<rparr> = plen a - 1"
    by (simp_all add: lo_def)
  show "canonical m" using c by (simp add: m kk L_def)
  show "IP m = IP a" by (simp add: m)
  show "hbits m = Suc (hbits a)" using pl e by (simp add: m kk L_def hbits_def)
qed

lemma range_within_trans:
  assumes "canonical a" "canonical b" "canonical c" "range_within a b" "range_within b c"
  shows "range_within a c"
proof -
  have l1: "length (IP a) = length (IP b)" using assms(4) by (rule range_within_length)
  have l2: "length (IP b) = length (IP c)" using assms(5) by (rule range_within_length)
  have l3: "length (IP a) = length (IP c)" using l1 l2 by simp
  show ?thesis
    using assms(4,5)
    unfolding range_within_val [OF assms(1,2) l1] range_within_val [OF assms(2,3) l2]
      range_within_val [OF assms(1,3) l3]
    by arith
qed

lemma before_irrefl: "canonical a \<Longrightarrow> \<not> before a a"
proof
  assume c: "canonical a" and "before a a"
  then have "top a < IP a" by (simp add: before_less)
  moreover have "IP a \<le> top a" using c by (rule IP_le_top)
  ultimately show False by simp
qed

text \<open>The merged network of two neighbours is their union.\<close>

lemma combine_union:
  assumes ca: "canonical a" and cb: "canonical b" and sk: "same_kind a b"
    and ab: "before a b" and cm: "combine a b = Some m"
  shows "canonical m" and "same_kind m a" and "range_within a m" and "range_within b m"
    and "in_net x m \<longleftrightarrow> in_net x a \<or> in_net x b"
    and "before b c \<Longrightarrow> before m c"
proof -
  note s = combine_spec [OF ca cb sk ab cm]
  have len: "length (IP a) = length (IP b)" using sk by (simp add: same_kind_def)
  have lm: "length (IP m) = length (IP a)" by (simp add: s(2))
  have lom: "lo m = lo a" by (simp add: lo_def s(2))
  show cmm: "canonical m" by (rule s(1))
  show "same_kind m a" by (simp add: same_kind_def s(2))
  have p: "(0::nat) < 2 ^ hbits a" by simp
  show "range_within a m"
    unfolding range_within_val [OF ca cmm lm [symmetric]] lom s(3) using p by simp
  show "range_within b m"
    unfolding range_within_val [OF cb cmm len [symmetric, unfolded lm [symmetric]]] lom s(3) s(4) s(5)
    by simp
  show "in_net x m \<longleftrightarrow> in_net x a \<or> in_net x b"
    unfolding in_net_val [OF cmm] in_net_val [OF ca] in_net_val [OF cb] lom s(3) s(4) s(5) lm
      len [symmetric]
    using p by auto
  show "before m c" if bc: "before b c"
  proof -
    have "val (top m) = val (top b)"
      unfolding top_canonical(3) [OF cmm] top_canonical(3) [OF cb] lom s(3) s(4) s(5) by simp
    moreover have "length (top m) = length (top b)"
      using top_canonical(2) [OF cmm] top_canonical(2) [OF cb] lm len by simp
    ultimately have "top m = top b" by (simp add: val_inj)
    then have "top m < IP c" using bc by (simp add: before_less)
    then show ?thesis using top_canonical(1) [OF cmm] by (simp add: less_before)
  qed
qed

subsection \<open>One round of the loop of \<open>InsertIPNet\<close>\<close>

lemma coalesce_spec:
  assumes srt: "sorted_wrt before ns"
    and can: "\<forall>m\<in>set ns. canonical m \<and> same_kind m c"
    and i: "i < length ns" and nc: "ns ! i = c"
    and co: "coalesce ns i c = Some merged"
  shows "canonical merged" and "same_kind merged c" and "range_within c merged"
    and "\<forall>x. in_net x merged \<longrightarrow> (\<exists>m\<in>set ns. in_net x m)"
proof -
  have cc: "canonical c" using can i nc by (metis nth_mem)
  define c1 where "c1 = (if 0 < i then combine (ns ! (i - 1)) c else None)"
  define a1 where "a1 = (case c1 of Some n \<Rightarrow> n | None \<Rightarrow> c)"
  define c2 where "c2 = (if i + 1 < length ns then combine a1 (ns ! (i + 1)) else None)"
  have res: "(case c2 of Some n \<Rightarrow> Some n | None \<Rightarrow> c1) = Some merged"
    using co unfolding coalesce_def Let_def c1_def a1_def c2_def .
  have A: "canonical a1 \<and> same_kind a1 c \<and> range_within c a1 \<and>
           (\<forall>x. in_net x a1 \<longrightarrow> (\<exists>m\<in>set ns. in_net x m)) \<and>
           (i + 1 < length ns \<longrightarrow> before a1 (ns ! (i + 1)))"
  proof (cases c1)
    case None
    then have "a1 = c" by (simp add: a1_def)
    moreover have "before c (ns ! (i + 1))" if "i + 1 < length ns"
      using srt that nc by (auto simp: sorted_wrt_iff_nth_less)
    moreover have "\<exists>m\<in>set ns. in_net x m" if "in_net x c" for x
      using that i nc by (metis nth_mem)
    ultimately show ?thesis using cc by (simp add: range_within_refl)
  next
    case (Some m1)
    then have pos: "0 < i" and cm: "combine (ns ! (i - 1)) c = Some m1"
      by (auto simp: c1_def split: if_splits)
    define p where "p = ns ! (i - 1)"
    have pin: "p \<in> set ns" using i pos by (simp add: p_def)
    then have cp: "canonical p" and kp: "same_kind p c" using can by simp_all
    have bp: "before p c"
      using srt i pos nc by (auto simp: sorted_wrt_iff_nth_less p_def)
    note u = combine_union [OF cp cc kp bp cm [folded p_def]]
    have a1: "a1 = m1" by (simp add: a1_def Some)
    have "before m1 (ns ! (i + 1))" if "i + 1 < length ns"
    proof -
      have "before c (ns ! (i + 1))"
        using srt that nc by (auto simp: sorted_wrt_iff_nth_less)
      then show ?thesis by (rule u(6))
    qed
    moreover have "\<exists>m\<in>set ns. in_net x m" if "in_net x m1" for x
    proof -
      from that u(5) [of x] have "in_net x p \<or> in_net x c" by simp
      then show ?thesis using pin i nc by (metis nth_mem)
    qed
    moreover have "same_kind m1 c" using u(2) kp by (rule same_kind_trans)
    ultimately show ?thesis using u(1,4) by (simp add: a1)
  qed
  show "canonical merged" "same_kind merged c" "range_within c merged"
    "\<forall>x. in_net x merged \<longrightarrow> (\<exists>m\<in>set ns. in_net x m)"
  proof -
    have "canonical merged \<and> same_kind merged c \<and> range_within c merged \<and>
       (\<forall>x. in_net x merged \<longrightarrow> (\<exists>m\<in>set ns. in_net x m))"
    proof (cases c2)
      case None
      with res have "c1 = Some merged" by simp
      then have "a1 = merged" by (simp add: a1_def)
      with A show ?thesis by simp
    next
      case (Some m2)
      with res have e: "m2 = merged" by simp
      from Some have nx: "i + 1 < length ns" and cm: "combine a1 (ns ! (i + 1)) = Some merged"
        by (auto simp: c2_def e split: if_splits)
      define q where "q = ns ! (i + 1)"
      have qin: "q \<in> set ns" using nx by (simp add: q_def)
      then have cq: "canonical q" and kq: "same_kind q c" using can by simp_all
      from A nx have ca: "canonical a1" and ka: "same_kind a1 c" and wa: "range_within c a1"
        and ia: "\<And>x. in_net x a1 \<Longrightarrow> \<exists>m\<in>set ns. in_net x m" and ba: "before a1 q"
        by (simp_all add: q_def)
      have kaq: "same_kind a1 q" using ka same_kind_sym [OF kq] by (rule same_kind_trans)
      note u = combine_union [OF ca cq kaq ba cm [folded q_def]]
      have "same_kind merged c" using u(2) ka by (rule same_kind_trans)
      moreover have "range_within c merged"
        using cc ca u(1) wa u(3) by (rule range_within_trans)
      moreover have "\<exists>m\<in>set ns. in_net x m" if "in_net x merged" for x
      proof -
        from that u(5) [of x] have "in_net x a1 \<or> in_net x q" by simp
        then show ?thesis using ia qin by blast
      qed
      ultimately show ?thesis using u(1) by simp
    qed
    then show "canonical merged" "same_kind merged c" "range_within c merged"
      "\<forall>x. in_net x merged \<longrightarrow> (\<exists>m\<in>set ns. in_net x m)" by simp_all
  qed
qed

subsection \<open>\<open>insert\<close> on a search tree\<close>

lemma numNodes_walk: "numNodes t = length (walk t)"
  by (induction t) simp_all

lemma walk_prune: "walk (prune c t) = filter (\<lambda>m. \<not> ContainsNet c m) (walk t)"
  by (induction t) simp_all

lemma canonical_tree_prune: "canonical_tree t \<Longrightarrow> canonical_tree (prune c t)"
proof (induction t)
  case Leaf
  show ?case by simp
next
  case (Node l k r)
  from Node.prems have tl: "canonical_tree l" and tr: "canonical_tree r" and k: "canonical k"
    and bl: "\<forall>m\<in>set (walk l). before m k" and br: "\<forall>m\<in>set (walk r). before k m"
    by (simp_all add: canonical_tree_Node)
  have pl: "canonical_tree (prune c l)" and pr: "canonical_tree (prune c r)"
    using Node.IH tl tr by simp_all
  have bl': "\<forall>m\<in>set (walk (prune c l)). before m k" using bl by (simp add: walk_prune)
  have br': "\<forall>m\<in>set (walk (prune c r)). before k m" using br by (simp add: walk_prune)
  show ?case
  proof (cases "ContainsNet c k")
    case True
    have "\<forall>a\<in>set (walk (prune c l)). \<forall>b\<in>set (walk (prune c r)). before a b"
      using before_trans [OF k] bl' br' by blast
    with pl pr have "canonical_tree (join (prune c l) (prune c r))" by (rule canonical_tree_join)
    with True show ?thesis by simp
  next
    case False
    with pl pr k bl' br' show ?thesis by (simp add: canonical_tree_Node)
  qed
qed

text \<open>A network of the same kind that neither contains \<open>k\<close> nor lies within \<open>k\<close> lies
  entirely before or entirely after \<open>k\<close>.\<close>

lemma kind_sep:
  assumes "canonical k" "canonical c" "same_kind k c" "\<not> ContainsNet k c" "\<not> ContainsNet c k"
  shows "sep c k"
proof -
  have len: "length (IP c) = length (IP k)" using assms(3) by (simp add: same_kind_def)
  have "\<not> range_within c k" using assms(4) by (simp add: ContainsNet_kind [OF assms(1,2,3)])
  moreover have "\<not> range_within k c"
    using assms(5) by (simp add: ContainsNet_kind [OF assms(2,1) same_kind_sym [OF assms(3)]])
  ultimately show ?thesis using laminar [OF assms(2,1) len] by (auto simp: sep_def)
qed

text \<open>What \<open>insert\<close> returns for a candidate of the kind of the stored networks.\<close>

definition insert_ok :: "ipTree \<Rightarrow> IPNet \<Rightarrow> ipTree \<times> nat option \<Rightarrow> bool" where
  "insert_ok t c res \<longleftrightarrow>
     canonical_tree (fst res) \<and>
     set (walk (fst res)) \<subseteq> insert c (set (walk t)) \<and>
     (\<forall>x. (\<exists>m\<in>set (walk (fst res)). in_net x m) \<longleftrightarrow> (\<exists>m\<in>set (walk t). in_net x m) \<or> in_net x c) \<and>
     (\<exists>m\<in>set (walk (fst res)). range_within c m) \<and>
     (\<forall>i. snd res = Some i \<longrightarrow> i < length (walk (fst res)) \<and> walk (fst res) ! i = c)"

lemma tree_insert_spec:
  assumes "canonical_tree t" "canonical c" "\<forall>m\<in>set (walk t). same_kind m c"
  shows "insert_ok t c (tree_insert t c)"
  using assms
proof (induction t)
  case Leaf
  then show ?case by (simp add: insert_ok_def canonical_tree_Node range_within_refl)
next
  case (Node l k r)
  note c = Node.prems(2)
  from Node.prems(1) have tl: "canonical_tree l" and tr: "canonical_tree r" and k: "canonical k"
    and bl: "\<forall>m\<in>set (walk l). before m k" and br: "\<forall>m\<in>set (walk r). before k m"
    by (simp_all add: canonical_tree_Node)
  from Node.prems(3) have kl: "\<forall>m\<in>set (walk l). same_kind m c"
    and kr: "\<forall>m\<in>set (walk r). same_kind m c" and kk: "same_kind k c" by simp_all
  have cl: "canonical m" if "m \<in> set (walk l)" for m using tl that by (rule canonical_tree_walk)
  have cr: "canonical m" if "m \<in> set (walk r)" for m using tr that by (rule canonical_tree_walk)
  show ?case
  proof (cases "ContainsNet k c")
    case True
    have w: "range_within c k" using k c True by (rule ContainsNet_imp_range_within)
    have "in_net x k" if "in_net x c" for x using c k w that by (rule range_within_in_net)
    then have "(\<exists>m\<in>set (walk (Node l k r)). in_net x m) \<longleftrightarrow>
        (\<exists>m\<in>set (walk (Node l k r)). in_net x m) \<or> in_net x c" for x by auto
    moreover have "\<exists>m\<in>set (walk (Node l k r)). range_within c m" using w by auto
    ultimately show ?thesis using True Node.prems(1)
      by (simp add: insert_ok_def subset_insertI)
  next
    case nkc: False
    show ?thesis
    proof (cases "ContainsNet c k")
      case True
      have wk: "range_within k c" using c k True by (rule ContainsNet_imp_range_within)
      define l' where "l' = prune c l"
      define r' where "r' = prune c r"
      have res: "tree_insert (Node l k r) c = (Node l' c r', Some (numNodes l'))"
        using nkc True by (simp add: l'_def r'_def)
      have wl: "set (walk l') = {m \<in> set (walk l). \<not> ContainsNet c m}"
        and wr: "set (walk r') = {m \<in> set (walk r). \<not> ContainsNet c m}"
        by (auto simp: l'_def r'_def walk_prune)
      have tl': "canonical_tree l'" and tr': "canonical_tree r'"
        using tl tr by (simp_all add: l'_def r'_def canonical_tree_prune)
      have bl': "before m c" if m: "m \<in> set (walk l')" for m
      proof -
        from m have ml: "m \<in> set (walk l)" and nc: "\<not> ContainsNet c m" by (simp_all add: wl)
        have cm: "canonical m" using ml by (rule cl)
        have km: "same_kind m c" using kl ml by simp
        have bmk: "before m k" using bl ml by simp
        have "\<not> ContainsNet m c"
        proof
          assume "ContainsNet m c"
          then have w: "range_within c m" using cm c by (simp add: ContainsNet_imp_range_within)
          have "before c k" by (rule before_sub_left [OF cm c w bmk])
          with c k wk have "before k k" by (rule before_sub_left)
          with k show False by (simp add: before_irrefl)
        qed
        from kind_sep [OF cm c km this nc] have "before c m \<or> before m c" by (simp add: sep_def)
        moreover have "\<not> before c m"
        proof
          assume "before c m"
          with c k wk have "before k m" by (rule before_sub_left)
          from before_trans [OF k bmk this] have "before m m" .
          with cm show False by (simp add: before_irrefl)
        qed
        ultimately show ?thesis by simp
      qed
      have br': "before c m" if m: "m \<in> set (walk r')" for m
      proof -
        from m have mr: "m \<in> set (walk r)" and nc: "\<not> ContainsNet c m" by (simp_all add: wr)
        have cm: "canonical m" using mr by (rule cr)
        have km: "same_kind m c" using kr mr by simp
        have bkm: "before k m" using br mr by simp
        have "\<not> ContainsNet m c"
        proof
          assume "ContainsNet m c"
          then have w: "range_within c m" using cm c by (simp add: ContainsNet_imp_range_within)
          have "before k c" by (rule before_sub_right [OF cm c w bkm])
          with c k wk have "before k k" by (rule before_sub_right)
          with k show False by (simp add: before_irrefl)
        qed
        from kind_sep [OF cm c km this nc] have "before c m \<or> before m c" by (simp add: sep_def)
        moreover have "\<not> before m c"
        proof
          assume "before m c"
          with c k wk have "before m k" by (rule before_sub_right)
          from before_trans [OF k this bkm] have "before m m" .
          with cm show False by (simp add: before_irrefl)
        qed
        ultimately show ?thesis by simp
      qed
      have t': "canonical_tree (Node l' c r')"
        using tl' tr' c bl' br' by (simp add: canonical_tree_Node)
      have sub: "set (walk (Node l' c r')) \<subseteq> insert c (set (walk (Node l k r)))"
        by (auto simp: wl wr)
      have inc: "in_net x c" if "m \<in> set (walk (Node l k r))" "ContainsNet c m" "in_net x m" for x m
      proof -
        have "canonical m" using Node.prems(1) that(1) by (rule canonical_tree_walk)
        with c that(2,3) show ?thesis by (auto intro: ContainsNet_sound)
      qed
      have addr: "(\<exists>m\<in>set (walk (Node l' c r')). in_net x m) \<longleftrightarrow>
          (\<exists>m\<in>set (walk (Node l k r)). in_net x m) \<or> in_net x c" for x
      proof
        assume "\<exists>m\<in>set (walk (Node l' c r')). in_net x m"
        then show "(\<exists>m\<in>set (walk (Node l k r)). in_net x m) \<or> in_net x c"
          by (auto simp: wl wr)
      next
        assume a: "(\<exists>m\<in>set (walk (Node l k r)). in_net x m) \<or> in_net x c"
        show "\<exists>m\<in>set (walk (Node l' c r')). in_net x m"
        proof (cases "in_net x c")
          case True
          then show ?thesis by auto
        next
          case False
          with a obtain m where m: "m \<in> set (walk (Node l k r))" "in_net x m" by blast
          with inc [OF m(1) _ m(2)] False have nc: "\<not> ContainsNet c m" by blast
          with True have "m \<noteq> k" by auto
          with m(1) nc have "m \<in> set (walk l') \<or> m \<in> set (walk r')" by (auto simp: wl wr)
          with m(2) show ?thesis by auto
        qed
      qed
      have pos: "numNodes l' < length (walk (Node l' c r')) \<and> walk (Node l' c r') ! numNodes l' = c"
        by (simp add: numNodes_walk)
      have "\<exists>m\<in>set (walk (Node l' c r')). range_within c m"
        using range_within_refl [OF c] by auto
      with t' sub addr pos show ?thesis
        unfolding insert_ok_def res by (simp only: fst_conv snd_conv option.inject) blast
    next
      case nck: False
      from kind_sep [OF k c kk nkc nck] have spk: "sep c k" .
      show ?thesis
      proof (cases "bytes_Compare (IP c) (IP k) < 0")
        case True
        then have ck: "before c k"
          using spk before_compare(2) [OF k] by (auto simp: sep_def)
        from Node.IH(1) [OF tl c kl] have ih: "insert_ok l c (tree_insert l c)" .
        obtain l' pos where li: "tree_insert l c = (l', pos)" by (cases "tree_insert l c")
        have res: "tree_insert (Node l k r) c = (Node l' k r, pos)"
          using nkc nck True by (simp add: li)
        from ih have tl': "canonical_tree l'"
          and sl: "set (walk l') \<subseteq> insert c (set (walk l))"
          and al: "\<And>x. (\<exists>m\<in>set (walk l'). in_net x m) \<longleftrightarrow> (\<exists>m\<in>set (walk l). in_net x m) \<or> in_net x c"
          and wl: "\<exists>m\<in>set (walk l'). range_within c m"
          and pl: "\<And>i. pos = Some i \<Longrightarrow> i < length (walk l') \<and> walk l' ! i = c"
          by (simp_all add: insert_ok_def li)
        have "\<forall>m\<in>set (walk l'). before m k" using sl bl ck by auto
        then have t': "canonical_tree (Node l' k r)"
          using tl' tr k br by (simp add: canonical_tree_Node)
        have sub: "set (walk (Node l' k r)) \<subseteq> insert c (set (walk (Node l k r)))"
          using sl by auto
        have addr: "(\<exists>m\<in>set (walk (Node l' k r)). in_net x m) \<longleftrightarrow>
            (\<exists>m\<in>set (walk (Node l k r)). in_net x m) \<or> in_net x c" for x
          using al [of x] by auto
        have w: "\<exists>m\<in>set (walk (Node l' k r)). range_within c m" using wl by auto
        have p: "i < length (walk (Node l' k r)) \<and> walk (Node l' k r) ! i = c" if "pos = Some i" for i
          using pl [OF that] by (simp add: nth_append)
        from t' sub addr w p show ?thesis
          unfolding insert_ok_def res by (simp only: fst_conv snd_conv) blast
      next
        case False
        then have kc: "before k c"
          using spk before_compare(1) [OF c] by (auto simp: sep_def)
        from Node.IH(2) [OF tr c kr] have ih: "insert_ok r c (tree_insert r c)" .
        obtain r' pos where ri: "tree_insert r c = (r', pos)" by (cases "tree_insert r c")
        have res: "tree_insert (Node l k r) c =
            (Node l k r', map_option (\<lambda>i. numNodes l + 1 + i) pos)"
          by (simp only: tree_insert.simps nkc nck False if_False ri prod.case)
        from ih have tr': "canonical_tree r'"
          and sr: "set (walk r') \<subseteq> insert c (set (walk r))"
          and ar: "\<And>x. (\<exists>m\<in>set (walk r'). in_net x m) \<longleftrightarrow> (\<exists>m\<in>set (walk r). in_net x m) \<or> in_net x c"
          and wr: "\<exists>m\<in>set (walk r'). range_within c m"
          and pr: "\<And>i. pos = Some i \<Longrightarrow> i < length (walk r') \<and> walk r' ! i = c"
          by (simp_all add: insert_ok_def ri)
        have "\<forall>m\<in>set (walk r'). before k m" using sr br kc by auto
        then have t': "canonical_tree (Node l k r')"
          using tl tr' k bl by (simp add: canonical_tree_Node)
        have sub: "set (walk (Node l k r')) \<subseteq> insert c (set (walk (Node l k r)))"
          using sr by auto
        have addr: "(\<exists>m\<in>set (walk (Node l k r')). in_net x m) \<longleftrightarrow>
            (\<exists>m\<in>set (walk (Node l k r)). in_net x m) \<or> in_net x c" for x
          using ar [of x] by auto
        have w: "\<exists>m\<in>set (walk (Node l k r')). range_within c m" using wr by auto
        have p: "j < length (walk (Node l k r')) \<and> walk (Node l k r') ! j = c"
          if "map_option (\<lambda>i. numNodes l + 1 + i) pos = Some j" for j
        proof -
          from that obtain i where i: "pos = Some i" "j = numNodes l + 1 + i" by auto
          from pr [OF i(1)] show ?thesis
            by (simp add: i(2) numNodes_walk nth_append)
        qed
        from t' sub addr w p show ?thesis
          unfolding insert_ok_def res by (simp only: fst_conv snd_conv) blast
      qed
    qed
  qed
qed

subsection \<open>The loop of \<open>InsertIPNet\<close>\<close>

declare insert_loop.simps [simp del]

lemma insert_loop_spec:
  assumes "canonical_tree t" "canonical c" "\<forall>m\<in>set (walk t). same_kind m c"
  shows "canonical_tree (insert_loop t c) \<and>
         (\<forall>m\<in>set (walk (insert_loop t c)). canonical m \<and> same_kind m c) \<and>
         (\<forall>x. (\<exists>m\<in>set (walk (insert_loop t c)). in_net x m) \<longleftrightarrow>
               (\<exists>m\<in>set (walk t). in_net x m) \<or> in_net x c) \<and>
         (\<exists>m\<in>set (walk (insert_loop t c)). range_within c m)"
  using assms
proof (induction t c rule: insert_loop.induct)
  case (1 t c)
  note c = "1.prems"(2)
  obtain t' pos where ti: "tree_insert t c = (t', pos)" by (cases "tree_insert t c")
  from tree_insert_spec [OF "1.prems"] have t': "canonical_tree t'"
    and sub: "set (walk t') \<subseteq> insert c (set (walk t))"
    and addr: "\<And>x. (\<exists>m\<in>set (walk t'). in_net x m) \<longleftrightarrow> (\<exists>m\<in>set (walk t). in_net x m) \<or> in_net x c"
    and wi: "\<exists>m\<in>set (walk t'). range_within c m"
    and pos: "\<And>i. pos = Some i \<Longrightarrow> i < length (walk t') \<and> walk t' ! i = c"
    by (simp_all add: insert_ok_def ti)
  have kind: "\<forall>m\<in>set (walk t'). canonical m \<and> same_kind m c"
    using sub "1.prems"(3) canonical_tree_walk [OF t'] by auto
  have fin: ?case if "insert_loop t c = t'"
    using t' kind addr wi by (simp add: that)
  show ?case
  proof (cases pos)
    case None
    have "insert_loop t c = t'" by (subst insert_loop.simps) (simp add: ti None)
    then show ?thesis by (rule fin)
  next
    case (Some i)
    show ?thesis
    proof (cases "coalesce (walk t') i c")
      case None
      have "insert_loop t c = t'" by (subst insert_loop.simps) (simp add: ti Some None)
      then show ?thesis by (rule fin)
    next
      case (Some merged)
      have e: "insert_loop t c = insert_loop t' merged"
        by (subst insert_loop.simps) (simp add: ti \<open>pos = Some i\<close> Some)
      from pos [OF \<open>pos = Some i\<close>] have i: "i < length (walk t')" and nc: "walk t' ! i = c"
        by simp_all
      note cs = coalesce_spec [OF walk_sorted [OF t'] kind i nc Some]
      have km: "\<forall>m\<in>set (walk t'). same_kind m merged"
        using kind same_kind_sym [OF cs(2)] by (auto intro: same_kind_trans)
      from "1.IH" [OF ti [symmetric] \<open>pos = Some i\<close> Some t' cs(1) km]
      have r: "canonical_tree (insert_loop t' merged)"
        and rk: "\<forall>m\<in>set (walk (insert_loop t' merged)). canonical m \<and> same_kind m merged"
        and ra: "\<And>x. (\<exists>m\<in>set (walk (insert_loop t' merged)). in_net x m) \<longleftrightarrow>
                 (\<exists>m\<in>set (walk t'). in_net x m) \<or> in_net x merged"
        and rw: "\<exists>m\<in>set (walk (insert_loop t' merged)). range_within merged m"
        by blast+
      have k2: "\<forall>m\<in>set (walk (insert_loop t' merged)). canonical m \<and> same_kind m c"
        using rk cs(2) by (auto intro: same_kind_trans)
      have a2: "(\<exists>m\<in>set (walk (insert_loop t' merged)). in_net x m) \<longleftrightarrow>
          (\<exists>m\<in>set (walk t). in_net x m) \<or> in_net x c" for x
        using ra [of x] addr [of x] cs(4) by blast
      from rw obtain m where m: "m \<in> set (walk (insert_loop t' merged))" "range_within merged m"
        by blast
      have "canonical m" using rk m(1) by simp
      from range_within_trans [OF c cs(1) this cs(3) m(2)] m(1)
      have w2: "\<exists>m\<in>set (walk (insert_loop t' merged)). range_within c m" by blast
      from r k2 a2 w2 show ?thesis by (simp add: e)
    qed
  qed
qed

text \<open>\<open>InsertIPNet\<close> of a canonical network into a set of canonical networks of its kind
  that satisfies the search invariant: the invariant is kept, the networks stay of that
  kind, the set afterwards contains the network, and an address is contained afterwards
  exactly when it was contained before or \<open>ContainsNet\<close> finds it in the network.\<close>

lemma InsertIPNet_spec:
  assumes "canonical_tree (tree s)" and "canonical n"
    and "\<forall>m\<in>set (walk (tree s)). same_kind m n"
  shows "canonical_tree (tree (InsertIPNet s (Some n)))"
    and "\<forall>m\<in>set (walk (tree (InsertIPNet s (Some n)))). same_kind m n"
    and "ContainsIPNet (Some (InsertIPNet s (Some n))) (Some n)"
    and "Contains (InsertIPNet s (Some n)) x \<longleftrightarrow> Contains s x \<or> ContainsNet n (ipToNet x)"
proof -
  define s' where "s' = InsertIPNet s (Some n)"
  have ts': "tree s' = insert_loop (tree s) n" by (simp add: s'_def InsertIPNet_def)
  from insert_loop_spec [OF assms] have t': "canonical_tree (tree s')"
    and k: "\<forall>m\<in>set (walk (tree s')). canonical m \<and> same_kind m n"
    and a: "\<And>x. (\<exists>m\<in>set (walk (tree s')). in_net x m) \<longleftrightarrow>
               (\<exists>m\<in>set (walk (tree s)). in_net x m) \<or> in_net x n"
    and w: "\<exists>m\<in>set (walk (tree s')). range_within n m"
    by (simp_all add: ts')
  show "canonical_tree (tree (InsertIPNet s (Some n)))" using t' by (simp add: s'_def)
  show "\<forall>m\<in>set (walk (tree (InsertIPNet s (Some n)))). same_kind m n"
    using k by (simp add: s'_def)
  from w obtain m where m: "m \<in> set (walk (tree s'))" "range_within n m" by blast
  have cm: "canonical m" and km: "same_kind m n" using k m(1) by simp_all
  have "ContainsNet m n" using m(2) by (simp add: ContainsNet_kind [OF cm assms(2) km])
  from tree_contains_complete [OF t' assms(2) m(1) this]
  show "ContainsIPNet (Some (InsertIPNet s (Some n))) (Some n)"
    by (simp add: ContainsIPNet_def s'_def)
  have host: "(\<exists>m\<in>set (walk (tree u)). ContainsNet m (ipToNet x)) \<longleftrightarrow>
      length x = length (IP n) \<and> (\<exists>m\<in>set (walk (tree u)). in_net x m) \<and>
      \<not> (length x = 16 \<and> To4 (IP n) = None \<and> To4 x \<noteq> None)"
    if u: "\<forall>m\<in>set (walk (tree u)). canonical m \<and> same_kind m n" for u
  proof -
    have "ContainsNet m (ipToNet x) \<longleftrightarrow>
        length x = length (IP n) \<and> in_net x m \<and>
        \<not> (length x = 16 \<and> To4 (IP n) = None \<and> To4 x \<noteq> None)"
      if m: "m \<in> set (walk (tree u))" for m
    proof -
      from u m have cm: "canonical m" and km: "same_kind m n" by simp_all
      from km have l: "length (IP m) = length (IP n)" and t: "To4 (IP m) = None \<longleftrightarrow> To4 (IP n) = None"
        by (simp_all add: same_kind_def)
      show ?thesis
      proof (cases "length x = length (IP m)")
        case True
        then show ?thesis using l t by (simp add: ContainsNet_host [OF cm True])
      next
        case False
        then have "\<not> ContainsNet m (ipToNet x)" by (auto simp: ContainsNet_def)
        with False l show ?thesis by simp
      qed
    qed
    then show ?thesis by blast
  qed
  have ks: "\<forall>m\<in>set (walk (tree s)). canonical m \<and> same_kind m n"
    using assms(1,3) canonical_tree_walk by blast
  have hn: "ContainsNet n (ipToNet x) \<longleftrightarrow>
      length x = length (IP n) \<and> in_net x n \<and>
      \<not> (length x = 16 \<and> To4 (IP n) = None \<and> To4 x \<noteq> None)"
  proof (cases "length x = length (IP n)")
    case True
    then show ?thesis by (simp add: ContainsNet_host [OF assms(2) True])
  next
    case False
    then have "\<not> ContainsNet n (ipToNet x)" by (auto simp: ContainsNet_def)
    with False show ?thesis by simp
  qed
  have "Contains s' x \<longleftrightarrow> Contains s x \<or> ContainsNet n (ipToNet x)"
    unfolding Contains_walk [OF t'] Contains_walk [OF assms(1)] host [OF k] host [OF ks] hn
    using a [of x] by blast
  then show "Contains (InsertIPNet s (Some n)) x \<longleftrightarrow> Contains s x \<or> ContainsNet n (ipToNet x)"
    by (simp add: s'_def)
qed

section \<open>Sets built from networks of one kind\<close>

text \<open>The block \<open>::ffff:0:0/96\<close> of the IPv4-mapped addresses.\<close>

definition mapped_block :: IPNet where
  "mapped_block = \<lparr>IP = v4InV6Prefix @ [0, 0, 0, 0], Mask = replicate 12 0xff @ replicate 4 0\<rparr>"

lemma mapped_block_canonical: "canonical mapped_block" "length (IP mapped_block) = 16"
  "To4 (IP mapped_block) \<noteq> None"
  by code_simp+

lemma mapped_iff_in_block:
  "To4 x \<noteq> None \<and> length x = 16 \<longleftrightarrow> in_net x mapped_block"
proof
  assume "To4 x \<noteq> None \<and> length x = 16"
  then have l: "length x = 16" and m: "To4 x \<noteq> None" by simp_all
  have h: "hbits mapped_block \<le> 32" by (rule mapped_hbits [OF mapped_block_canonical])
  have "val x div 2 ^ 32 = 65535" using To4_mapped_iff [OF l] m by blast
  moreover have "lo mapped_block div 2 ^ 32 = 65535"
    unfolding lo_def using To4_mapped_iff [OF mapped_block_canonical(2)] mapped_block_canonical(3)
    by blast
  moreover have "hbits mapped_block = 32" by code_simp
  ultimately show "in_net x mapped_block"
    using l by (simp add: in_net_canonical [OF mapped_block_canonical(1)] mapped_block_canonical(2))
next
  assume i: "in_net x mapped_block"
  then have "length x = 16"
    by (simp add: in_net_canonical [OF mapped_block_canonical(1)] mapped_block_canonical(2))
  with mapped_in_net [OF mapped_block_canonical i] show "To4 x \<noteq> None \<and> length x = 16" by simp
qed

text \<open>A regular network is canonical and, unless it is itself IPv4-mapped (or has 4
  bytes), holds no IPv4-mapped address.\<close>

definition regular :: "IPNet \<Rightarrow> bool" where
  "regular n \<longleftrightarrow> canonical n \<and> (To4 (IP n) = None \<longrightarrow> \<not> in_net (IP mapped_block) n)"

lemma regularD: "regular n \<Longrightarrow> canonical n"
  by (simp add: regular_def)

lemma regular_disjoint:
  assumes "regular k" and "To4 (IP k) = None" and "in_net x k"
  shows "To4 x = None"
proof (rule ccontr)
  assume "To4 x \<noteq> None"
  note ck = regularD [OF assms(1)]
  have lk: "length (IP k) = 16"
    using canonicalD(1) [OF ck] assms(2) by (auto simp: To4_len4)
  have lx: "length x = 16" using assms(3) lk by (simp add: in_net_val [OF ck])
  have xb: "in_net x mapped_block" using \<open>To4 x \<noteq> None\<close> lx by (simp flip: mapped_iff_in_block)
  note cb = mapped_block_canonical(1)
  have len: "length (IP k) = length (IP mapped_block)" by (simp add: lk mapped_block_canonical(2))
  from laminar [OF ck cb len]
  consider "range_within mapped_block k" | "range_within k mapped_block" | "sep k mapped_block"
    by (auto simp: sep_def)
  then show False
  proof cases
    case 1
    from range_within_in_net [OF cb ck 1 lo_in_net [OF cb]] assms(1,2) show False
      by (simp add: regular_def)
  next
    case 2
    from range_within_in_net [OF ck cb 2 lo_in_net [OF ck]] have "in_net (IP k) mapped_block" .
    then have "To4 (IP k) \<noteq> None" by (simp flip: mapped_iff_in_block)
    with assms(2) show False by simp
  next
    case 3
    from sep_disjoint [OF ck cb 3, of x] assms(3) xb show False by simp
  qed
qed

text \<open>A canonical network within a regular network is regular and of the same kind.\<close>

lemma regular_sub:
  assumes "regular k" and "canonical p" and "range_within p k"
  shows "regular p" and "same_kind p k"
proof -
  note ck = regularD [OF assms(1)]
  have len: "length (IP p) = length (IP k)" using assms(3) by (rule range_within_length)
  have ipk: "in_net (IP p) k"
    using range_within_in_net [OF assms(2) ck assms(3) lo_in_net [OF assms(2)]] .
  have t: "To4 (IP p) = None \<longleftrightarrow> To4 (IP k) = None"
  proof
    assume a: "To4 (IP p) = None"
    show "To4 (IP k) = None"
    proof (rule ccontr)
      assume m: "To4 (IP k) \<noteq> None"
      have "length (IP k) = 16"
        using canonicalD(1) [OF assms(2)] a len by (auto simp: To4_len4)
      from mapped_in_net [OF ck this m ipk] a show False by simp
    qed
  next
    assume "To4 (IP k) = None"
    from regular_disjoint [OF assms(1) this ipk] show "To4 (IP p) = None" .
  qed
  show "same_kind p k" using len t by (simp add: same_kind_def)
  have "\<not> in_net (IP mapped_block) p" if "To4 (IP p) = None"
  proof
    assume "in_net (IP mapped_block) p"
    with assms(2) ck assms(3) have "in_net (IP mapped_block) k" by (rule range_within_in_net)
    with assms(1) t that show False by (simp add: regular_def)
  qed
  with assms(2) show "regular p" by (simp add: regular_def)
qed

text \<open>The sets built from the empty set by \<open>InsertIPNet\<close> and \<open>RemoveIPNet\<close> with regular
  networks of the kind of \<open>r\<close>.\<close>

inductive built :: "IPNet \<Rightarrow> IPSet \<Rightarrow> bool" for r :: IPNet where
  built_empty: "built r empty_IPSet"
| built_insert: "built r s \<Longrightarrow> regular n \<Longrightarrow> same_kind n r \<Longrightarrow> built r (InsertIPNet s (Some n))"
| built_remove: "built r s \<Longrightarrow> regular n \<Longrightarrow> same_kind n r \<Longrightarrow>
     RemoveIPNet s (Some n) = Some s' \<Longrightarrow> built r s'"

lemma built_invariant:
  assumes "built r s"
  shows "canonical_tree (tree s) \<and> (\<forall>m\<in>set (walk (tree s)). regular m \<and> same_kind m r)"
  using assms
proof (induction rule: built.induct)
  case built_empty
  show ?case by (simp add: empty_IPSet_def)
next
  case (built_insert s n)
  then have t: "canonical_tree (tree s)"
    and k: "\<forall>m\<in>set (walk (tree s)). regular m \<and> same_kind m r" by simp_all
  note cn = regularD [OF built_insert.hyps(2)]
  have kn: "\<forall>m\<in>set (walk (tree s)). same_kind m n"
    using k same_kind_sym [OF built_insert.hyps(3)] by (auto intro: same_kind_trans)
  define s' where "s' = InsertIPNet s (Some n)"
  have ts': "tree s' = insert_loop (tree s) n" by (simp add: s'_def InsertIPNet_def)
  from insert_loop_spec [OF t cn kn] have t': "canonical_tree (tree s')"
    and k': "\<forall>m\<in>set (walk (tree s')). canonical m \<and> same_kind m n"
    and a: "\<And>x. (\<exists>m\<in>set (walk (tree s')). in_net x m) \<longleftrightarrow>
               (\<exists>m\<in>set (walk (tree s)). in_net x m) \<or> in_net x n"
    by (simp_all add: ts')
  have "regular m \<and> same_kind m r" if m: "m \<in> set (walk (tree s'))" for m
  proof -
    from k' m have cm: "canonical m" and kmn: "same_kind m n" by simp_all
    have "\<not> in_net (IP mapped_block) m" if nm: "To4 (IP m) = None"
    proof
      assume "in_net (IP mapped_block) m"
      with a [of "IP mapped_block"] m
      have "(\<exists>m\<in>set (walk (tree s)). in_net (IP mapped_block) m) \<or> in_net (IP mapped_block) n"
        by blast
      then show False
      proof
        assume "\<exists>m\<in>set (walk (tree s)). in_net (IP mapped_block) m"
        then obtain q where q: "q \<in> set (walk (tree s))" "in_net (IP mapped_block) q" by blast
        with k kn have "regular q" "same_kind q n" by simp_all
        with kmn nm q(2) show False by (auto simp: regular_def same_kind_def)
      next
        assume "in_net (IP mapped_block) n"
        with built_insert.hyps(2) kmn nm show False by (auto simp: regular_def same_kind_def)
      qed
    qed
    with cm have "regular m" by (simp add: regular_def)
    moreover have "same_kind m r" using kmn built_insert.hyps(3) by (rule same_kind_trans)
    ultimately show ?thesis by simp
  qed
  with t' show ?case by (simp add: s'_def)
next
  case (built_remove s n s')
  then have t: "canonical_tree (tree s)"
    and k: "\<forall>m\<in>set (walk (tree s)). regular m \<and> same_kind m r" by simp_all
  note cn = regularD [OF built_remove.hyps(2)]
  have H: "\<forall>m\<in>set (walk (tree s)). range_within m n \<longrightarrow> ContainsNet n m"
  proof (intro ballI impI)
    fix m assume m: "m \<in> set (walk (tree s))" and w: "range_within m n"
    from k m have "regular m" "same_kind m r" by simp_all
    then have "same_kind n m"
      using built_remove.hyps(3) by (auto intro: same_kind_trans same_kind_sym)
    with w show "ContainsNet n m"
      by (simp add: ContainsNet_kind [OF cn regularD [OF \<open>regular m\<close>]])
  qed
  from removeNet_spec [OF t cn H] obtain t' where
    r: "removeNet (tree s) n = Some t'" and t': "canonical_tree t'"
    and w: "\<forall>m'\<in>set (walk t'). \<exists>m\<in>set (walk (tree s)). range_within m' m" by blast
  from built_remove.hyps(4) r have ts': "tree s' = t'" by (auto simp: RemoveIPNet_def)
  have "regular m' \<and> same_kind m' r" if m': "m' \<in> set (walk t')" for m'
  proof -
    from w m' obtain m where m: "m \<in> set (walk (tree s))" "range_within m' m" by blast
    from k m(1) have rm: "regular m" and km: "same_kind m r" by simp_all
    have cm': "canonical m'" using t' m' by (rule canonical_tree_walk)
    from regular_sub [OF rm cm' m(2)] km show ?thesis by (auto intro: same_kind_trans)
  qed
  with t' show ?case by (simp add: ts')
qed

text \<open>On such sets the postconditions of insertion and removal hold, the stored networks
  lie one entirely before the other, and \<open>GetIPs\<close> is ascending.\<close>

lemma built_spec:
  assumes b: "built r s" and n: "regular n" and kn: "same_kind n r"
  shows "ContainsIPNet (Some (InsertIPNet s (Some n))) (Some n)"
    and "\<And>x. Contains s x \<Longrightarrow> Contains (InsertIPNet s (Some n)) x"
    and "\<exists>s'. RemoveIPNet s (Some n) = Some s' \<and> built r s' \<and>
            (\<forall>x. in_net x n \<longrightarrow> \<not> Contains s' x) \<and>
            (\<forall>x. \<not> in_net x n \<and> Contains s x \<longrightarrow> Contains s' x)"
    and "sorted_wrt before (walk (tree s))"
    and "0 \<le> lim \<Longrightarrow> \<exists>ips. GetIPs s lim = Some ips \<and> sorted_wrt (\<lambda>a b. bytes_Compare a b < 0) ips"
proof -
  from built_invariant [OF b] have t: "canonical_tree (tree s)"
    and k: "\<forall>m\<in>set (walk (tree s)). regular m \<and> same_kind m r" by simp_all
  note cn = regularD [OF n]
  have ks: "\<forall>m\<in>set (walk (tree s)). same_kind m n"
    using k same_kind_sym [OF kn] by (auto intro: same_kind_trans)
  note i = InsertIPNet_spec [OF t cn ks]
  show "ContainsIPNet (Some (InsertIPNet s (Some n))) (Some n)" by (rule i(3))
  show "Contains (InsertIPNet s (Some n)) x" if "Contains s x" for x
    using that by (simp add: i(4))
  show "sorted_wrt before (walk (tree s))" using t by (rule walk_sorted)
  show "\<exists>ips. GetIPs s lim = Some ips \<and> sorted_wrt (\<lambda>a b. bytes_Compare a b < 0) ips"
    if "0 \<le> lim" using t that by (rule GetIPs_ascending)
  have cs: "\<forall>m\<in>set (walk (tree s)). canonical m" using t canonical_tree_walk by blast
  have H: "\<forall>m\<in>set (walk (tree s)). range_within m n \<longrightarrow> ContainsNet n m"
  proof (intro ballI impI)
    fix m assume m: "m \<in> set (walk (tree s))" and w: "range_within m n"
    from ks m have "same_kind n m" by (auto intro: same_kind_sym)
    with w cs m show "ContainsNet n m" by (simp add: ContainsNet_kind [OF cn])
  qed
  from removeNet_spec [OF t cn H] obtain t' where
    r: "removeNet (tree s) n = Some t'" and t': "canonical_tree t'"
    and a1: "\<And>x m'. in_net x n \<Longrightarrow> m' \<in> set (walk t') \<Longrightarrow> \<not> ContainsNet m' (ipToNet x)"
    and a2: "\<And>x. \<not> in_net x n \<and> (\<exists>m\<in>set (walk (tree s)). ContainsNet m (ipToNet x)) \<Longrightarrow>
                 \<exists>m'\<in>set (walk t'). ContainsNet m' (ipToNet x)"
    by blast
  define s' where "s' = s\<lparr>tree := t'\<rparr>"
  have ts': "tree s' = t'" by (simp add: s'_def)
  have res: "RemoveIPNet s (Some n) = Some s'" by (simp add: RemoveIPNet_def r s'_def)
  have c': "Contains s' x \<longleftrightarrow> (\<exists>m\<in>set (walk t'). ContainsNet m (ipToNet x))" for x
    using Contains_walk [of s' x] t' by (simp add: ts')
  have 1: "\<not> Contains s' x" if "in_net x n" for x
    using a1 [OF that] by (auto simp: c')
  have 2: "Contains s' x" if "\<not> in_net x n \<and> Contains s x" for x
    using a2 [of x] that by (simp add: c' Contains_walk [OF t])
  have "built r s'" using b n kn res by (rule built.built_remove)
  with res 1 2 show "\<exists>s'. RemoveIPNet s (Some n) = Some s' \<and> built r s' \<and>
            (\<forall>x. in_net x n \<longrightarrow> \<not> Contains s' x) \<and>
            (\<forall>x. \<not> in_net x n \<and> Contains s x \<longrightarrow> Contains s' x)" by blast
qed

section \<open>Networks of the test suite\<close>

definition Ten24 :: IPNet where
  "Ten24 = \<lparr>IP = [10, 0, 0, 0], Mask = [255, 255, 255, 0]\<rparr>"

definition Ten24lower :: IPNet where
  "Ten24lower = \<lparr>IP = [10, 0, 0, 0], Mask = [255, 255, 255, 128]\<rparr>"

definition Ten24128 :: IPNet where
  "Ten24128 = \<lparr>IP = [10, 0, 0, 128], Mask = [255, 255, 255, 128]\<rparr>"


definition Ten24_120 :: IPNet where
  "Ten24_120 = \<lparr>IP = [10, 0, 0, 120], Mask = [255, 255, 255, 248]\<rparr>"

definition Ten24_120_rest :: "IPNet list" where
  "Ten24_120_rest =
     [\<lparr>IP = [10, 0, 0, 128], Mask = [255, 255, 255, 128]\<rparr>,
      \<lparr>IP = [10, 0, 0, 0], Mask = [255, 255, 255, 192]\<rparr>,
      \<lparr>IP = [10, 0, 0, 64], Mask = [255, 255, 255, 224]\<rparr>,
      \<lparr>IP = [10, 0, 0, 96], Mask = [255, 255, 255, 240]\<rparr>,
      \<lparr>IP = [10, 0, 0, 112], Mask = [255, 255, 255, 248]\<rparr>]"

definition Net113_29 :: IPNet where
  "Net113_29 = \<lparr>IP = [203, 0, 113, 0], Mask = [255, 255, 255, 248]\<rparr>"

text \<open>A textual stage that knows five texts of the test suite.\<close>

definition scan_examples :: "string \<Rightarrow> (byte list \<times> int) option" where
  "scan_examples s =
     (if s = ''10.0.0.0/24'' then Some ([10, 0, 0, 0], 24)
      else if s = ''203.0.113.1/24'' then Some ([203, 0, 113, 1], 24)
      else if s = ''2001:db8::1/64''
        then Some ([0x20, 0x01, 0x0d, 0xb8, 0, 0, 0, 0, 0, 0, 0, 0, 0, 0, 0, 1], 64)
      else if s = ''10.0.0.0/33'' then Some ([10, 0, 0, 0], 33)
      else None)"

text \<open>\<open>::/0\<close>, \<open>::ffff:0:0/96\<close>, \<open>1::/16\<close> and the address \<open>::ffff:1.2.3.4\<close>, as
  \<open>ParseIPNet\<close> and \<open>ParseIP\<close> return them (16 bytes).\<close>

definition V6All :: IPNet where
  "V6All = \<lparr>IP = replicate 16 0, Mask = replicate 16 0\<rparr>"

definition V6Mapped96 :: IPNet where
  "V6Mapped96 = \<lparr>IP = replicate 10 0 @ [255, 255, 0, 0, 0, 0],
                  Mask = replicate 12 255 @ [0, 0, 0, 0]\<rparr>"

definition V6One16 :: IPNet where
  "V6One16 = \<lparr>IP = [0, 1] @ replicate 14 0, Mask = [255, 255] @ replicate 14 0\<rparr>"

definition V6MappedHost :: "byte list" where
  "V6MappedHost = replicate 10 0 @ [255, 255, 1, 2, 3, 4]"












text \<open>The set built by inserting \<open>1::/16\<close>, the address \<open>::ffff:1.2.3.4\<close> and then \<open>::/0\<close>.\<close>

definition SetU :: IPSet where
  "SetU = InsertIPNet (Insert (InsertIPNet empty_IPSet (Some V6One16)) V6MappedHost) (Some V6All)"





section \<open>Properties\<close>

text \<open>
  C10. Nil-safety of the IPSet interface: \<open>InsertIPNet(nil)\<close> and \<open>RemoveIPNet(nil)\<close>
  return with the set unchanged, and \<open>ContainsIPNet\<close> returns false when the receiver or
  the network argument is nil.
\<close>

theorem nil_safety:
  "InsertIPNet s None = s \<and> RemoveIPNet s None = Some s \<and>
   ContainsIPNet None net = False \<and> ContainsIPNet s' None = False"
  by (simp add: InsertIPNet_def RemoveIPNet_def ContainsIPNet_def split: option.split)

text \<open>
  C5. \<open>CanCombineWith\<close> called on the upper half with the lower half as argument:
  \<open>DivideInHalf\<close> of 10.0.0.0/24 gives 10.0.0.0/25 and 10.0.0.128/25, and
  \<open>10.0.0.128/25.CanCombineWith(10.0.0.0/25)\<close> answers true with a network whose address
  is 10.0.0.128 and whose mask is /24, which is neither canonical nor the parent.
\<close>

theorem CanCombineWith_upper_half:
  "DivideInHalf Ten24 = Some (Ten24lower, Ten24128) \<and>
   CanCombineWith Ten24lower Ten24128 = (True, Some Ten24) \<and>
   CanCombineWith Ten24128 Ten24lower =
     (True, Some \<lparr>IP = [10, 0, 0, 128], Mask = [255, 255, 255, 0]\<rparr>) \<and>
   \<lparr>IP = [10, 0, 0, 128], Mask = [255, 255, 255, 0]\<rparr> \<noteq> Ten24 \<and>
   \<not> canonical \<lparr>IP = [10, 0, 0, 128], Mask = [255, 255, 255, 0]\<rparr>"
  by code_simp

text \<open>
  C6. \<open>ContainsNet\<close> on \<open>::/0\<close> and \<open>::ffff:0:0/96\<close>: both are canonical 16-byte networks
  and the range of the second lies within the range of the first, but \<open>ContainsNet\<close>
  answers false, because \<open>(*net.IPNet).Contains\<close> cuts the inner address to 4 bytes with
  \<open>To4\<close> and then finds its length different from the 16 bytes of the outer address.
\<close>

theorem ContainsNet_mapped_inner:
  "canonical V6All \<and> canonical V6Mapped96 \<and>
   length (IP V6All) = length (IP V6Mapped96) \<and>
   range_within V6Mapped96 V6All \<and>
   ContainsNet V6All V6Mapped96 = False"
  by code_simp

text \<open>
  C1. Inserting \<open>::/0\<close> and then \<open>::ffff:0:0/96\<close> into the empty set stores both networks,
  although the range of the second lies within the range of the first: the stored
  networks are not pairwise disjoint.
\<close>

theorem insert_stores_overlapping:
  "walk (tree (InsertIPNet (InsertIPNet empty_IPSet (Some V6All)) (Some V6Mapped96)))
     = [V6All, V6Mapped96] \<and>
   canonical V6All \<and> canonical V6Mapped96 \<and> range_within V6Mapped96 V6All"
  by code_simp

text \<open>
  C2. The set holding \<open>1::/16\<close> and \<open>::ffff:1.2.3.4/128\<close> contains the address
  \<open>::ffff:1.2.3.4\<close>; after \<open>InsertIPNet(::/0)\<close> the query for \<open>::/0\<close> answers true but the
  query for \<open>::ffff:1.2.3.4\<close> answers false.
\<close>

theorem insert_loses_address:
  "Contains (Insert (InsertIPNet empty_IPSet (Some V6One16)) V6MappedHost) V6MappedHost \<and>
   ContainsIPNet
     (Some (InsertIPNet (Insert (InsertIPNet empty_IPSet (Some V6One16)) V6MappedHost)
        (Some V6All))) (Some V6All) \<and>
   \<not> Contains
     (InsertIPNet (Insert (InsertIPNet empty_IPSet (Some V6One16)) V6MappedHost) (Some V6All))
     V6MappedHost"
  by code_simp

lemma Difference_examples:
  "Difference Ten24 Ten24128 = Some [Ten24lower]"
  "Difference Ten24 Ten24_120 = Some Ten24_120_rest"
  by code_simp+

text \<open>With "contains" read as \<open>ContainsNet\<close>: for canonical networks \<open>a\<close> and \<open>b\<close> of the same
  width, \<open>a.Difference(b)\<close> returns the empty list if \<open>ContainsNet b a\<close>, otherwise \<open>[a]\<close> if not
  \<open>ContainsNet a b\<close>, and otherwise canonical networks that are pairwise disjoint, cover
  exactly the addresses of \<open>a\<close> that are not in \<open>b\<close>, and come in strictly decreasing size.\<close>

lemma Difference_cases:
  assumes "canonical a" and "canonical b" and "length (IP a) = length (IP b)"
  shows "(ContainsNet b a \<longrightarrow> Difference a b = Some []) \<and>
         (\<not> ContainsNet b a \<and> \<not> ContainsNet a b \<longrightarrow> Difference a b = Some [a]) \<and>
         (\<not> ContainsNet b a \<and> ContainsNet a b \<longrightarrow>
            (\<exists>r. Difference a b = Some r \<and>
                 (\<forall>n\<in>set r. canonical n \<and> length (IP n) = length (IP a)) \<and>
                 (\<forall>x. (\<exists>n\<in>set r. in_net x n) \<longleftrightarrow> in_net x a \<and> \<not> in_net x b) \<and>
                 sorted_wrt (\<lambda>p q. \<forall>x. \<not> (in_net x p \<and> in_net x q)) r \<and>
                 sorted_wrt (\<lambda>p q. Size q < Size p) r)) \<and>
         Difference Ten24 Ten24128 = Some [Ten24lower] \<and>
         Difference Ten24 Ten24_120 = Some Ten24_120_rest"
proof (intro conjI impI)
  assume "ContainsNet b a"
  then show "Difference a b = Some []"
    by (subst Difference.simps) (simp add: assms(3))
next
  assume "\<not> ContainsNet b a \<and> \<not> ContainsNet a b"
  then show "Difference a b = Some [a]"
    by (subst Difference.simps) (simp add: assms(3))
next
  assume "\<not> ContainsNet b a \<and> ContainsNet a b"
  then have "ContainsNet a b" by simp
  with assms(1,2) obtain r where "Difference a b = Some r" "diff_ok a b r"
    using Difference_contained by blast
  then show "\<exists>r. Difference a b = Some r \<and>
                 (\<forall>n\<in>set r. canonical n \<and> length (IP n) = length (IP a)) \<and>
                 (\<forall>x. (\<exists>n\<in>set r. in_net x n) \<longleftrightarrow> in_net x a \<and> \<not> in_net x b) \<and>
                 sorted_wrt (\<lambda>p q. \<forall>x. \<not> (in_net x p \<and> in_net x q)) r \<and>
                 sorted_wrt (\<lambda>p q. Size q < Size p) r"
    by (auto simp: diff_ok_def)
qed (rule Difference_examples)+

text \<open>With "contains" read as the containment of ranges, the same holds for canonical
  networks of one width unless one of two 16-byte networks is IPv4-mapped and the other
  is not.\<close>

lemma Difference_ranges:
  assumes "canonical a" and "canonical b" and "length (IP a) = length (IP b)"
    and "length (IP a) = 16 \<longrightarrow> (To4 (IP a) = None \<longleftrightarrow> To4 (IP b) = None)"
  shows "(range_within a b \<longrightarrow> Difference a b = Some []) \<and>
         (\<not> range_within a b \<and> \<not> range_within b a \<longrightarrow> Difference a b = Some [a]) \<and>
         (\<not> range_within a b \<and> range_within b a \<longrightarrow>
            (\<exists>r. Difference a b = Some r \<and>
                 (\<forall>n\<in>set r. canonical n \<and> length (IP n) = length (IP a)) \<and>
                 (\<forall>x. (\<exists>n\<in>set r. in_net x n) \<longleftrightarrow> in_net x a \<and> \<not> in_net x b) \<and>
                 sorted_wrt (\<lambda>p q. \<forall>x. \<not> (in_net x p \<and> in_net x q)) r \<and>
                 sorted_wrt (\<lambda>p q. Size q < Size p) r))"
proof -
  have ab: "ContainsNet a b \<longleftrightarrow> range_within b a"
    using assms(4) by (intro ContainsNet_range_within [OF assms(1,2,3)]) auto
  have ba: "ContainsNet b a \<longleftrightarrow> range_within a b"
    using assms(3,4) by (intro ContainsNet_range_within [OF assms(2,1) assms(3) [symmetric]]) auto
  from Difference_cases [OF assms(1,2,3)] show ?thesis
    unfolding ab ba by blast
qed

text \<open>
  C4. \<open>Difference\<close> on \<open>::/0\<close> and \<open>::ffff:0:0/96\<close>: both are canonical 16-byte networks and
  the range of the second lies strictly within the range of the first, but
  \<open>Difference(::/0, ::ffff:0:0/96)\<close> returns \<open>[::/0]\<close>, which still holds the addresses of the
  second network such as \<open>::ffff:1.2.3.4\<close>, and \<open>Difference(::ffff:0:0/96, ::/0)\<close> returns
  \<open>[::ffff:0:0/96]\<close> and not the empty list.
\<close>

theorem Difference_mapped_inner:
  "canonical V6All \<and> canonical V6Mapped96 \<and> length (IP V6All) = length (IP V6Mapped96) \<and>
   range_within V6Mapped96 V6All \<and> \<not> range_within V6All V6Mapped96 \<and>
   in_net V6MappedHost V6Mapped96 \<and>
   Difference V6All V6Mapped96 = Some [V6All] \<and>
   Difference V6Mapped96 V6All = Some [V6Mapped96]"
  by code_simp

text \<open>For a canonical network \<open>n\<close> and a limit of at least 1, \<open>n.Expand(limit)\<close> returns the
  addresses of \<open>n\<close> in ascending order from the network address, each the \<open>incrementIP\<close>
  of the one before, cut off after \<open>limit\<close> addresses or after the cap of \<^term>\<open>2 ^ 30 :: nat\<close>
  addresses, whichever is smaller. \<open>GetIPs(limit)\<close> on a set of canonical networks returns
  the first \<open>limit\<close> addresses of the capped expansions of the stored networks, taken in
  the order of the walk; with the limit 0 the budget is \<^term>\<open>2 ^ 63 - 1 :: int\<close>, so that fewer
  capped addresses than that are all returned.\<close>

lemma enumeration_canonical:
  assumes "canonical n" and "1 \<le> limit"
    and "\<forall>m\<in>set (walk (tree s)). canonical m" and "0 \<le> lim"
  shows "(\<exists>ips. Expand n limit = Some ips \<and>
            length ips = min (nat limit) (min (2 ^ 30) (Size n)) \<and>
            ips ! 0 = IP n \<and>
            (\<forall>i<length ips. in_net (ips ! i) n) \<and>
            (\<forall>i. Suc i < length ips \<longrightarrow>
               incrementIP (ips ! i) = Some (ips ! Suc i) \<and>
               bytes_Compare (ips ! i) (ips ! Suc i) < 0)) \<and>
         GetIPs s lim =
           Some (take (if lim = 0 then 2 ^ 63 - 1 else nat lim)
                   (concat (map Expand_capped (walk (tree s))))) \<and>
         (length (concat (map Expand_capped (walk (tree s)))) < 2 ^ 63 \<longrightarrow>
            GetIPs s 0 = Some (concat (map Expand_capped (walk (tree s)))))"
proof (intro conjI impI)
  have l0: "0 \<le> limit" using assms(2) by simp
  from Expand_canonical [OF assms(1) l0] obtain ips where
    e: "Expand n limit = Some ips"
    and len: "length ips = min (nat limit) (min (2 ^ 30) (Size n))"
    and el: "\<forall>i<length ips. length (ips ! i) = length (IP n) \<and> val (ips ! i) = lo n + i"
    and st: "\<forall>i. Suc i < length ips \<longrightarrow> incrementIP (ips ! i) = Some (ips ! Suc i)"
    by blast
  have pos: "0 < length ips"
    using assms(2) by (simp add: len Size_canonical [OF assms(1)])
  have first: "ips ! 0 = IP n"
  proof -
    from el pos have "length (ips ! 0) = length (IP n)" "val (ips ! 0) = val (IP n)"
      by (auto simp: lo_def)
    then show ?thesis by (simp add: val_inj)
  qed
  have mem: "in_net (ips ! i) n" if "i < length ips" for i
  proof -
    from that have "i < 2 ^ hbits n" by (simp add: len Size_canonical [OF assms(1)])
    with el that show ?thesis by (simp add: in_net_range [OF assms(1)])
  qed
  have asc: "bytes_Compare (ips ! i) (ips ! Suc i) < 0" if "Suc i < length ips" for i
  proof -
    from that el have "length (ips ! i) = length (ips ! Suc i)" "val (ips ! i) < val (ips ! Suc i)"
      by simp_all
    then show ?thesis by (simp add: bytes_Compare_less_val)
  qed
  from e len first mem st asc
  show "\<exists>ips. Expand n limit = Some ips \<and>
            length ips = min (nat limit) (min (2 ^ 30) (Size n)) \<and>
            ips ! 0 = IP n \<and>
            (\<forall>i<length ips. in_net (ips ! i) n) \<and>
            (\<forall>i. Suc i < length ips \<longrightarrow>
               incrementIP (ips ! i) = Some (ips ! Suc i) \<and>
               bytes_Compare (ips ! i) (ips ! Suc i) < 0)"
    by blast
next
  define l' where "l' = (if lim = 0 then MaxInt else lim)"
  have "0 \<le> l'" using assms(4) by (simp add: l'_def MaxInt_def)
  from getips_loop_spec [OF assms(3) this, of "[]"]
  have "GetIPs s lim = Some (take (nat l') (concat (map Expand_capped (walk (tree s)))))"
    by (simp add: GetIPs_def l'_def)
  moreover have "nat l' = (if lim = 0 then 2 ^ 63 - 1 else nat lim)"
    by (simp add: l'_def MaxInt_def)
  ultimately show "GetIPs s lim =
           Some (take (if lim = 0 then 2 ^ 63 - 1 else nat lim)
                   (concat (map Expand_capped (walk (tree s)))))"
    by (simp only:)
next
  assume le: "length (concat (map Expand_capped (walk (tree s)))) < 2 ^ 63"
  have "0 \<le> MaxInt" by (simp add: MaxInt_def)
  from getips_loop_spec [OF assms(3) this, of "[]"]
  have "GetIPs s 0 = Some (take (nat MaxInt) (concat (map Expand_capped (walk (tree s)))))"
    by (simp add: GetIPs_def)
  moreover have "nat MaxInt = 2 ^ 63 - 1" by (simp add: MaxInt_def)
  moreover have "length (concat (map Expand_capped (walk (tree s)))) \<le> 2 ^ 63 - 1"
    using le by simp
  ultimately show "GetIPs s 0 = Some (concat (map Expand_capped (walk (tree s))))"
    by simp
qed

lemma enumeration_examples:
  "Expand Net113_29 5 =
     Some [[203, 0, 113, 0], [203, 0, 113, 1], [203, 0, 113, 2], [203, 0, 113, 3], [203, 0, 113, 4]]"
  "GetIPs (InsertIPNet empty_IPSet (Some Net113_29)) 3 =
     Some [[203, 0, 113, 0], [203, 0, 113, 1], [203, 0, 113, 2]]"
  "GetIPs (InsertIPNet empty_IPSet (Some Net113_29)) 0 =
     Some [[203, 0, 113, 0], [203, 0, 113, 1], [203, 0, 113, 2], [203, 0, 113, 3],
           [203, 0, 113, 4], [203, 0, 113, 5], [203, 0, 113, 6], [203, 0, 113, 7]]"
  by code_simp+

text \<open>
  C7. The set built by inserting \<open>1::/16\<close>, the address \<open>::ffff:1.2.3.4\<close> and then \<open>::/0\<close>
  stores the canonical networks \<open>::ffff:1.2.3.4/128\<close> and \<open>::/0\<close>, in this order of the
  walk, and \<open>GetIPs(2)\<close> returns \<open>::ffff:1.2.3.4\<close> before \<open>::\<close>: the addresses do not come in
  ascending order.
\<close>

theorem GetIPs_not_ascending:
  "walk (tree SetU) = [ipToNet V6MappedHost, V6All] \<and>
   list_all canonical (walk (tree SetU)) \<and>
   GetIPs SetU 2 = Some [V6MappedHost, replicate 16 0] \<and>
   bytes_Compare (replicate 16 0) V6MappedHost < 0"
  by code_simp

text \<open>
  C8. \<open>ParseNet\<close> and \<open>ParseIPNet\<close> return a network exactly when the text parses, the
  prefix length is in range and the bits of the address beyond the prefix length are
  zero; the network then has the address as written and is canonical. A text that parses
  with non-zero host bits gives the error \<open>HostPartNotZero\<close>, a text that does not parse
  gives \<open>ParseError\<close>, and the two differ.
\<close>

theorem ParseIPNet_spec:
  assumes "\<And>t a n. scan t = Some (a, n) \<Longrightarrow> length a = 4 \<or> length a = 16"
  shows "((\<exists>net. ParseIPNet scan s = Inr net) \<longleftrightarrow>
            (\<exists>a n. scan s = Some (a, n) \<and> 0 \<le> n \<and> n \<le> 8 * int (length a) \<and>
                   val a mod 2 ^ (8 * length a - nat n) = 0)) \<and>
         (\<forall>a n. scan s = Some (a, n) \<and> 0 \<le> n \<and> n \<le> 8 * int (length a) \<longrightarrow>
            ParseIPNet scan s =
              (if val a mod 2 ^ (8 * length a - nat n) = 0
               then Inr \<lparr>IP = a, Mask = cidr_fill (length a) (nat n)\<rparr>
               else Inl HostPartNotZero)) \<and>
         ((\<forall>a n. scan s = Some (a, n) \<longrightarrow> n < 0 \<or> 8 * int (length a) < n) \<longrightarrow>
            ParseIPNet scan s = Inl ParseError) \<and>
         (\<forall>net. ParseIPNet scan s = Inr net \<longrightarrow> canonical net) \<and>
         ParseNet scan s = ParseIPNet scan s \<and>
         HostPartNotZero \<noteq> ParseError"
proof -
  have A: "ParseIPNet scan s =
      (if val a mod 2 ^ (8 * length a - nat n) = 0
       then Inr \<lparr>IP = a, Mask = cidr_fill (length a) (nat n)\<rparr>
       else Inl HostPartNotZero)"
    if "scan s = Some (a, n)" "0 \<le> n" "n \<le> 8 * int (length a)" for a n
    using ParseNet_scanned [of scan s a n, OF that(1) assms [OF that(1)] that(2,3)]
    by (simp add: ParseIPNet_ParseNet)
  have B: "ParseIPNet scan s = Inl ParseError"
    if "\<forall>a n. scan s = Some (a, n) \<longrightarrow> n < 0 \<or> 8 * int (length a) < n"
    using that by (auto simp: ParseIPNet_ParseNet ParseNet_def ParseCIDR_def Let_def split: option.splits)
  have C: "canonical \<lparr>IP = a, Mask = cidr_fill (length a) (nat n)\<rparr>"
    if "scan s = Some (a, n)" "0 \<le> n" "n \<le> 8 * int (length a)"
      "val a mod 2 ^ (8 * length a - nat n) = 0" for a n
    using canonicalI(1) [of a "nat n"] assms [OF that(1)] that(2,3,4) by simp
  have 1: "(\<exists>net. ParseIPNet scan s = Inr net) \<longleftrightarrow>
            (\<exists>a n. scan s = Some (a, n) \<and> 0 \<le> n \<and> n \<le> 8 * int (length a) \<and>
                   val a mod 2 ^ (8 * length a - nat n) = 0)"
  proof (cases "scan s")
    case None
    then show ?thesis using B by simp
  next
    case (Some p)
    obtain a n where p: "p = (a, n)" by (cases p)
    show ?thesis
    proof (cases "0 \<le> n \<and> n \<le> 8 * int (length a)")
      case True
      then show ?thesis using A [of a n] Some p by auto
    next
      case False
      then have "ParseIPNet scan s = Inl ParseError" using B Some p by auto
      with False Some p show ?thesis by auto
    qed
  qed
  have 4: "canonical net" if "ParseIPNet scan s = Inr net" for net
  proof -
    from that have "\<exists>net. ParseIPNet scan s = Inr net" by blast
    with 1 obtain a n where an: "scan s = Some (a, n)" "0 \<le> n" "n \<le> 8 * int (length a)"
      "val a mod 2 ^ (8 * length a - nat n) = 0" by auto
    with A [OF an(1,2,3)] that have "net = \<lparr>IP = a, Mask = cidr_fill (length a) (nat n)\<rparr>" by simp
    with C [OF an] show ?thesis by simp
  qed
  from 1 A B 4 show ?thesis by (simp add: ParseIPNet_ParseNet)
qed

theorem ParseIPNet_spec_witness:
  "ParseIPNet scan_examples ''10.0.0.0/24'' = Inr Ten24 \<and>
   ParseIPNet scan_examples ''203.0.113.1/24'' = Inl HostPartNotZero \<and>
   ParseIPNet scan_examples ''2001:db8::1/64'' = Inl HostPartNotZero \<and>
   ParseIPNet scan_examples ''10.0.0.0/33'' = Inl ParseError \<and>
   ParseIPNet scan_examples ''10.0.324.0/24'' = Inl ParseError"
proof -
  have h: "length a = 4 \<or> length a = 16" if "scan_examples t = Some (a, n)" for t a n
    using that by (auto simp: scan_examples_def split: if_splits)
  have v: "val [10, 0, 0, 0] mod 2 ^ (8 * 4 - nat 24) = 0"
    "val [203, 0, 113, 1] mod 2 ^ (8 * 4 - nat 24) \<noteq> 0"
    "val [0x20, 0x01, 0x0d, 0xb8, 0, 0, 0, 0, 0, 0, 0, 0, 0, 0, 0, 1] mod 2 ^ (8 * 16 - nat 64) \<noteq> 0"
    by simp_all
  have m: "cidr_fill 4 24 = [255, 255, 255, 0]" by code_simp
  have 1: "ParseIPNet scan_examples ''10.0.0.0/24'' = Inr Ten24"
    using ParseIPNet_spec [of scan_examples "''10.0.0.0/24''", OF h] v(1)
    by (simp add: scan_examples_def Ten24_def m)
  have 2: "ParseIPNet scan_examples ''203.0.113.1/24'' = Inl HostPartNotZero"
    using ParseIPNet_spec [of scan_examples "''203.0.113.1/24''", OF h] v(2)
    by (simp add: scan_examples_def)
  have 3: "ParseIPNet scan_examples ''2001:db8::1/64'' = Inl HostPartNotZero"
    using ParseIPNet_spec [of scan_examples "''2001:db8::1/64''", OF h] v(3)
    by (simp add: scan_examples_def)
  have 4: "ParseIPNet scan_examples ''10.0.0.0/33'' = Inl ParseError"
    using ParseIPNet_spec [of scan_examples "''10.0.0.0/33''", OF h]
    by (simp add: scan_examples_def)
  have 5: "ParseIPNet scan_examples ''10.0.324.0/24'' = Inl ParseError"
    using ParseIPNet_spec [of scan_examples "''10.0.324.0/24''", OF h]
    by (simp add: scan_examples_def)
  from 1 2 3 4 5 show ?thesis by simp
qed






end
